theory Spec2Isabelle
  imports Main "HOL-Library.Word"
begin

section \<open>JavaScript strings\<close>

text \<open>
  A JavaScript string is a sequence of UTF-16 code units. The formatting functions only
  use \<open>trim\<close>, \<open>startsWith\<close>, \<open>endsWith\<close>, \<open>slice\<close>, \<open>length\<close>, indexing, template
  literals (concatenation) and two anchored regular expressions, all of which work on
  code units.
\<close>

type_synonym code_unit = "16 word"
type_synonym jsstring = "code_unit list"

text \<open>String literals of the source, written as ASCII text.\<close>

definition js :: "string \<Rightarrow> jsstring" where
  "js s = map of_char s"

text \<open>
  ECMAScript \<open>WhiteSpace\<close> and \<open>LineTerminator\<close> code points: the characters removed by
  \<open>String.prototype.trim\<close> and matched by the regular expression class \<open>\s\<close>.
\<close>

definition isWhiteSpace :: "code_unit \<Rightarrow> bool" where
  "isWhiteSpace c \<longleftrightarrow>
     c = 0x0009 \<or> c = 0x000A \<or> c = 0x000B \<or> c = 0x000C \<or> c = 0x000D \<or> c = 0x0020 \<or>
     c = 0x00A0 \<or> c = 0x1680 \<or> (0x2000 \<le> c \<and> c \<le> 0x200A) \<or> c = 0x2028 \<or> c = 0x2029 \<or>
     c = 0x202F \<or> c = 0x205F \<or> c = 0x3000 \<or> c = 0xFEFF"

definition trim :: "jsstring \<Rightarrow> jsstring" where
  "trim s = rev (dropWhile isWhiteSpace (rev (dropWhile isWhiteSpace s)))"

definition startsWith :: "jsstring \<Rightarrow> jsstring \<Rightarrow> bool" where
  "startsWith s p \<longleftrightarrow> take (length p) s = p"

definition endsWith :: "jsstring \<Rightarrow> jsstring \<Rightarrow> bool" where
  "endsWith s p \<longleftrightarrow> length p \<le> length s \<and> drop (length s - length p) s = p"

text \<open>
  \<open>s.slice(start, end)\<close>: a negative index counts from the end of the string, both
  indices are clamped to the string, and an empty range gives the empty string.
\<close>

definition slice_str :: "jsstring \<Rightarrow> int \<Rightarrow> int \<Rightarrow> jsstring" where
  "slice_str s start fin =
     (let len = int (length s);
          lo = (if start < 0 then max (len + start) 0 else min start len);
          hi = (if fin < 0 then max (len + fin) 0 else min fin len)
      in take (nat (hi - lo)) (drop (nat lo) s))"

text \<open>\<open>s[i]\<close>: the code unit at index \<open>i\<close>, \<open>undefined\<close> (here \<open>None\<close>) out of range.\<close>

definition charAt :: "jsstring \<Rightarrow> nat \<Rightarrow> code_unit option" where
  "charAt s i = (if i < length s then Some (s ! i) else None)"

section \<open>Style detectors and appliers\<close>

subsection \<open>Bold\<close>

definition isBold :: "jsstring \<Rightarrow> bool" where
  "isBold text =
     (let trimmed = trim text
      in startsWith trimmed (js ''<b>'') \<and> endsWith trimmed (js ''</b>'') \<and> length trimmed > 7)"

definition applyBold :: "jsstring \<Rightarrow> jsstring" where
  "applyBold text = js ''<b>'' @ text @ js ''</b>''"

lemma slice_3_4_shorter: "7 < length s \<Longrightarrow> length (slice_str s 3 (- 4)) < length s"
  by (simp add: slice_str_def Let_def)

function removeBold_loop :: "jsstring \<Rightarrow> jsstring" where
  "removeBold_loop result =
     (if startsWith result (js ''<b>'') \<and> endsWith result (js ''</b>'') \<and> length result > 7
      then removeBold_loop (slice_str result 3 (- 4))
      else result)"
  by pat_completeness auto
termination
  by (relation "measure length") (simp_all add: slice_3_4_shorter)

declare removeBold_loop.simps [simp del]

definition removeBold :: "jsstring \<Rightarrow> jsstring" where
  "removeBold text = removeBold_loop (trim text)"

definition toggleBold :: "jsstring \<Rightarrow> jsstring" where
  "toggleBold text = (if isBold text then removeBold text else applyBold text)"

subsection \<open>Italic\<close>

definition isItalic :: "jsstring \<Rightarrow> bool" where
  "isItalic text =
     (let trimmed = trim text
      in if startsWith trimmed (js ''<b>'') \<or> endsWith trimmed (js ''</b>'') then False
         else startsWith trimmed (js ''<i>'') \<and> endsWith trimmed (js ''</i>'') \<and>
              length trimmed > 7)"

definition applyItalic :: "jsstring \<Rightarrow> jsstring" where
  "applyItalic text = js ''<i>'' @ text @ js ''</i>''"

text \<open>The loop of \<open>removeItalic\<close>; its \<open>break\<close> leaves the loop with the current result.\<close>

function removeItalic_loop :: "jsstring \<Rightarrow> jsstring" where
  "removeItalic_loop result =
     (if startsWith result (js ''<i>'') \<and> endsWith result (js ''</i>'') \<and> length result > 7
      then (if startsWith result (js ''<b>'') \<or> endsWith result (js ''</b>'') then result
            else removeItalic_loop (slice_str result 3 (- 4)))
      else result)"
  by pat_completeness auto
termination
  by (relation "measure length") (simp_all add: slice_3_4_shorter)

declare removeItalic_loop.simps [simp del]

definition removeItalic :: "jsstring \<Rightarrow> jsstring" where
  "removeItalic text = removeItalic_loop (trim text)"

definition toggleItalic :: "jsstring \<Rightarrow> jsstring" where
  "toggleItalic text = (if isItalic text then removeItalic text else applyItalic text)"

subsection \<open>Strikethrough\<close>

definition isStrikethrough :: "jsstring \<Rightarrow> bool" where
  "isStrikethrough text =
     (let trimmed = trim text
      in startsWith trimmed (js ''~~'') \<and> endsWith trimmed (js ''~~'') \<and> length trimmed > 4)"

definition applyStrikethrough :: "jsstring \<Rightarrow> jsstring" where
  "applyStrikethrough text = js ''~~'' @ text @ js ''~~''"

definition removeStrikethrough :: "jsstring \<Rightarrow> jsstring" where
  "removeStrikethrough text =
     (let trimmed = trim text
      in if isStrikethrough trimmed then slice_str trimmed 2 (- 2) else text)"

definition toggleStrikethrough :: "jsstring \<Rightarrow> jsstring" where
  "toggleStrikethrough text =
     (if isStrikethrough text then removeStrikethrough text else applyStrikethrough text)"

subsection \<open>Underline\<close>

definition isUnderline :: "jsstring \<Rightarrow> bool" where
  "isUnderline text =
     (let trimmed = trim text
      in startsWith trimmed (js ''<u>'') \<and> endsWith trimmed (js ''</u>'') \<and> length trimmed > 7)"

definition applyUnderline :: "jsstring \<Rightarrow> jsstring" where
  "applyUnderline text = js ''<u>'' @ text @ js ''</u>''"

definition removeUnderline :: "jsstring \<Rightarrow> jsstring" where
  "removeUnderline text =
     (let trimmed = trim text
      in if isUnderline trimmed then slice_str trimmed 3 (- 4) else text)"

definition toggleUnderline :: "jsstring \<Rightarrow> jsstring" where
  "toggleUnderline text =
     (if isUnderline text then removeUnderline text else applyUnderline text)"

subsection \<open>Headers\<close>

definition hash :: code_unit where
  "hash = 0x23"

definition space :: code_unit where
  "space = 0x20"

text \<open>The counting loop of \<open>getHeaderLevel\<close>, started at \<open>level = 0\<close>.\<close>

function countHashes :: "jsstring \<Rightarrow> nat \<Rightarrow> nat" where
  "countHashes trimmed level =
     (if level < length trimmed \<and> trimmed ! level = hash
      then countHashes trimmed (level + 1)
      else level)"
  by pat_completeness auto
termination
  by (relation "measure (\<lambda>(trimmed, level). length trimmed - level)") auto

declare countHashes.simps [simp del]

definition getHeaderLevel :: "jsstring \<Rightarrow> nat" where
  "getHeaderLevel text =
     (let trimmed = trim text;
          level = countHashes trimmed 0
      in if level > 0 \<and> level \<le> 3 \<and> charAt trimmed level = Some space then level else 0)"

definition isH1 :: "jsstring \<Rightarrow> bool" where
  "isH1 text \<longleftrightarrow> getHeaderLevel text = 1"

definition isH2 :: "jsstring \<Rightarrow> bool" where
  "isH2 text \<longleftrightarrow> getHeaderLevel text = 2"

definition isH3 :: "jsstring \<Rightarrow> bool" where
  "isH3 text \<longleftrightarrow> getHeaderLevel text = 3"

text \<open>
  The regular expression \<open>/^#+\s+/\<close> matches at the start of the string only: a maximal
  run of one or more \<open>#\<close> followed by a maximal run of one or more white-space
  characters. (Giving back a \<open>#\<close> never helps, since \<open>#\<close> is not white space.)
  \<open>hasHeaderMarker\<close> says whether it matches, \<open>stripHeaderMarker\<close> is
  \<open>s.replace(/^#+\s+/, '')\<close>.
\<close>

definition hasHeaderMarker :: "jsstring \<Rightarrow> bool" where
  "hasHeaderMarker s \<longleftrightarrow>
     takeWhile (\<lambda>c. c = hash) s \<noteq> [] \<and>
     takeWhile isWhiteSpace (dropWhile (\<lambda>c. c = hash) s) \<noteq> []"

definition stripHeaderMarker :: "jsstring \<Rightarrow> jsstring" where
  "stripHeaderMarker s =
     (if hasHeaderMarker s then dropWhile isWhiteSpace (dropWhile (\<lambda>c. c = hash) s) else s)"

definition applyH1 :: "jsstring \<Rightarrow> jsstring" where
  "applyH1 text =
     (let trimmed = trim text; cleanedText = stripHeaderMarker trimmed
      in js ''# '' @ cleanedText)"

definition applyH2 :: "jsstring \<Rightarrow> jsstring" where
  "applyH2 text =
     (let trimmed = trim text; cleanedText = stripHeaderMarker trimmed
      in js ''## '' @ cleanedText)"

definition applyH3 :: "jsstring \<Rightarrow> jsstring" where
  "applyH3 text =
     (let trimmed = trim text; cleanedText = stripHeaderMarker trimmed
      in js ''### '' @ cleanedText)"

definition removeHeader :: "jsstring \<Rightarrow> jsstring" where
  "removeHeader text = (let trimmed = trim text in stripHeaderMarker trimmed)"

definition toggleH1 :: "jsstring \<Rightarrow> jsstring" where
  "toggleH1 text = (if isH1 text then removeHeader text else applyH1 text)"

definition toggleH2 :: "jsstring \<Rightarrow> jsstring" where
  "toggleH2 text = (if isH2 text then removeHeader text else applyH2 text)"

definition toggleH3 :: "jsstring \<Rightarrow> jsstring" where
  "toggleH3 text = (if isH3 text then removeHeader text else applyH3 text)"

subsection \<open>Bullet lists\<close>

definition isBulletChar :: "code_unit \<Rightarrow> bool" where
  "isBulletChar c \<longleftrightarrow> c = 0x2D \<or> c = 0x2A"

text \<open>\<open>/^[-*]\s/.test(s)\<close>: a \<open>-\<close> or \<open>*\<close> first, a white-space character second.\<close>

definition testBullet :: "jsstring \<Rightarrow> bool" where
  "testBullet s =
     (case s of c # d # rest \<Rightarrow> isBulletChar c \<and> isWhiteSpace d | _ \<Rightarrow> False)"

text \<open>\<open>s.replace(/^[-*]\s+/, '')\<close>: the marker and the whole white-space run after it.\<close>

definition stripBulletMarker :: "jsstring \<Rightarrow> jsstring" where
  "stripBulletMarker s = (if testBullet s then dropWhile isWhiteSpace (tl s) else s)"

definition isBulletList :: "jsstring \<Rightarrow> bool" where
  "isBulletList text = (let trimmed = trim text in testBullet trimmed)"

definition applyBulletList :: "jsstring \<Rightarrow> jsstring" where
  "applyBulletList text =
     (let trimmed = trim text; content = stripBulletMarker trimmed
      in js ''- '' @ content)"

definition removeBulletList :: "jsstring \<Rightarrow> jsstring" where
  "removeBulletList text = (let trimmed = trim text in stripBulletMarker trimmed)"

definition toggleBulletList :: "jsstring \<Rightarrow> jsstring" where
  "toggleBulletList text =
     (if isBulletList text then removeBulletList text else applyBulletList text)"

subsection \<open>Dispatch on the format type\<close>

datatype FormatType = Bold | Italic | Underline | Strikethrough | H1 | H2 | H3 | Bullet

fun toggleFormat :: "jsstring \<Rightarrow> FormatType \<Rightarrow> jsstring" where
  "toggleFormat text Bold = toggleBold text"
| "toggleFormat text Italic = toggleItalic text"
| "toggleFormat text Underline = toggleUnderline text"
| "toggleFormat text Strikethrough = toggleStrikethrough text"
| "toggleFormat text H1 = toggleH1 text"
| "toggleFormat text H2 = toggleH2 text"
| "toggleFormat text H3 = toggleH3 text"
| "toggleFormat text Bullet = toggleBulletList text"

record FormatState =
  bold :: bool
  italic :: bool
  underline :: bool
  strikethrough :: bool
  h1 :: bool
  h2 :: bool
  h3 :: bool
  bullet :: bool

section \<open>The editor document\<close>

text \<open>
  The editor is an external collaborator; only its interface is modelled. A document is
  a sequence of lines (at least one in a real editor). A position is an offset into the
  document text, in which consecutive lines are separated by one line-break character.
  Line numbers start at 1. \<open>doc.line(n)\<close> and \<open>doc.lineAt(pos)\<close> throw a \<open>RangeError\<close>
  outside the document.
\<close>

datatype error = RangeError

type_synonym Text = "jsstring list"

record Line =
  line_from :: nat
  line_to :: nat
  line_number :: nat
  line_text :: jsstring

definition lineBreak :: code_unit where
  "lineBreak = 0x0A"

fun docString :: "Text \<Rightarrow> jsstring" where
  "docString [] = []"
| "docString (l # ls) = (if ls = [] then l else l @ [lineBreak] @ docString ls)"

text \<open>Offset of the first character of the line with 0-based index \<open>i\<close>.\<close>

fun lineStart :: "Text \<Rightarrow> nat \<Rightarrow> nat" where
  "lineStart ls 0 = 0"
| "lineStart [] (Suc i) = 0"
| "lineStart (l # ls) (Suc i) = length l + 1 + lineStart ls i"

definition mkLine :: "Text \<Rightarrow> nat \<Rightarrow> Line" where
  "mkLine d n =
     \<lparr>line_from = lineStart d (n - 1),
      line_to = lineStart d (n - 1) + length (d ! (n - 1)),
      line_number = n,
      line_text = d ! (n - 1)\<rparr>"

definition doc_line :: "Text \<Rightarrow> nat \<Rightarrow> error + Line" where
  "doc_line d n = (if n < 1 \<or> length d < n then Inl RangeError else Inr (mkLine d n))"

text \<open>
  \<open>doc.lineAt(pos)\<close>: the line around \<open>pos\<close>, that is the first line that ends at or
  after \<open>pos\<close>. The scan carries the offset and number of the line it looks at.
\<close>

fun lineAt_scan :: "Text \<Rightarrow> nat \<Rightarrow> nat \<Rightarrow> nat \<Rightarrow> error + Line" where
  "lineAt_scan [] off n pos = Inl RangeError"
| "lineAt_scan (l # ls) off n pos =
     (if pos \<le> off + length l
      then Inr \<lparr>line_from = off, line_to = off + length l, line_number = n, line_text = l\<rparr>
      else lineAt_scan ls (off + length l + 1) (n + 1) pos)"

definition lineAt :: "Text \<Rightarrow> nat \<Rightarrow> error + Line" where
  "lineAt d pos = lineAt_scan d 0 1 pos"

record EditorState =
  doc :: Text
  selection_from :: nat
  selection_to :: nat

definition sliceDoc :: "EditorState \<Rightarrow> nat \<Rightarrow> nat \<Rightarrow> jsstring" where
  "sliceDoc state from_pos to_pos = take (to_pos - from_pos) (drop from_pos (docString (doc state)))"

section \<open>Selection-context resolver\<close>

text \<open>The \<open>for\<close> loop of \<open>getSelectedLines\<close> over the line numbers.\<close>

fun pushLines :: "Text \<Rightarrow> nat list \<Rightarrow> error + Line list" where
  "pushLines d [] = Inr []"
| "pushLines d (lineNum # rest) =
     (case doc_line d lineNum of
        Inl e \<Rightarrow> Inl e
      | Inr l \<Rightarrow> (case pushLines d rest of Inl e \<Rightarrow> Inl e | Inr ls \<Rightarrow> Inr (l # ls)))"

definition getSelectedLines :: "EditorState \<Rightarrow> nat \<Rightarrow> nat \<Rightarrow> error + Line list" where
  "getSelectedLines state from_pos to_pos =
     (case lineAt (doc state) from_pos of
        Inl e \<Rightarrow> Inl e
      | Inr startLine \<Rightarrow>
          (case lineAt (doc state) to_pos of
             Inl e \<Rightarrow> Inl e
           | Inr endLine \<Rightarrow>
               pushLines (doc state) [line_number startLine ..< Suc (line_number endLine)]))"

definition getLineContent :: "EditorState \<Rightarrow> Line \<Rightarrow> jsstring" where
  "getLineContent state line = sliceDoc state (line_from line) (line_to line)"

text \<open>
  The touched lines in the words of the specification (section 4.2, step 1, and the
  glossary), for comparison with \<open>getSelectedLines\<close>: every line that overlaps the
  half-open range from \<open>from\<close> up to but not including \<open>to\<close>, and for a caret
  (\<open>from = to\<close>) the line the caret sits in. A line is taken with its line break, the
  most generous reading, so that every non-empty range inside the document touches at
  least one line.
\<close>

definition spec_touchedLines :: "Text \<Rightarrow> nat \<Rightarrow> nat \<Rightarrow> Line list" where
  "spec_touchedLines d from_pos to_pos =
     filter
       (\<lambda>l. if from_pos = to_pos then line_from l \<le> from_pos \<and> from_pos \<le> line_to l
            else line_from l < to_pos \<and> from_pos \<le> line_to l)
       (map (mkLine d) [1 ..< Suc (length d)])"

definition hasInlineFormatInSelection ::
  "EditorState \<Rightarrow> Line list \<Rightarrow> (jsstring \<Rightarrow> bool) \<Rightarrow> bool" where
  "hasInlineFormatInSelection state lines formatChecker =
     list_ex (\<lambda>line. let lineContent = sliceDoc state (line_from line) (line_to line)
                      in formatChecker lineContent) lines"

definition allLinesHaveHeaderLevel ::
  "EditorState \<Rightarrow> Line list \<Rightarrow> (jsstring \<Rightarrow> bool) \<Rightarrow> bool" where
  "allLinesHaveHeaderLevel state lines headerChecker =
     (if length lines = 0 then False
      else list_all (\<lambda>line. let lineContent = sliceDoc state (line_from line) (line_to line)
                            in headerChecker lineContent) lines)"

definition detectAdvancedFormatState :: "EditorState \<Rightarrow> nat \<Rightarrow> nat \<Rightarrow> error + FormatState" where
  "detectAdvancedFormatState state from_pos to_pos =
     (case getSelectedLines state from_pos to_pos of
        Inl e \<Rightarrow> Inl e
      | Inr selectedLines \<Rightarrow>
          if length selectedLines = 0
          then Inr \<lparr>bold = False, italic = False, underline = False, strikethrough = False,
                    h1 = False, h2 = False, h3 = False, bullet = False\<rparr>
          else
            let isSingleLine = (length selectedLines = 1)
            in Inr
              \<lparr>bold = hasInlineFormatInSelection state selectedLines isBold,
               italic = hasInlineFormatInSelection state selectedLines isItalic,
               underline = hasInlineFormatInSelection state selectedLines isUnderline,
               strikethrough = hasInlineFormatInSelection state selectedLines isStrikethrough,
               h1 = (isSingleLine \<and> allLinesHaveHeaderLevel state selectedLines isH1),
               h2 = (isSingleLine \<and> allLinesHaveHeaderLevel state selectedLines isH2),
               h3 = (isSingleLine \<and> allLinesHaveHeaderLevel state selectedLines isH3),
               bullet = (length selectedLines > 0 \<and>
                 list_all (\<lambda>line. let lineContent = sliceDoc state (line_from line) (line_to line)
                                  in isBulletList lineContent) selectedLines)\<rparr>)"

section \<open>Toggle orchestrator\<close>

text \<open>
  \<open>applyFormatting\<close> acts on the editor view only through \<open>console.warn\<close>,
  \<open>view.dispatch\<close> and \<open>view.focus\<close>; the model returns these calls in order. The
  document changes only through a dispatched transaction. A \<open>RangeError\<close> thrown by the
  document interface would propagate out of the function.
\<close>

record ChangeSpec =
  change_from :: nat
  change_to :: nat
  change_insert :: jsstring

record SelectionSpec =
  anchor :: nat
  head :: nat

datatype Effect =
    ConsoleWarn string
  | Dispatch "ChangeSpec list" "SelectionSpec option"
  | Focus

definition applyFormatting :: "EditorState option \<Rightarrow> FormatType \<Rightarrow> error + Effect list" where
  "applyFormatting view formatType =
     (case view of
        None \<Rightarrow> Inr []
      | Some state \<Rightarrow>
          if selection_from state = selection_to state
          then
            (case lineAt (doc state) (selection_from state) of
               Inl e \<Rightarrow> Inl e
             | Inr line \<Rightarrow>
                 let lineContent = sliceDoc state (line_from line) (line_to line)
                 in if formatType \<noteq> H1 \<and> formatType \<noteq> H2 \<and> formatType \<noteq> H3 \<and>
                       formatType \<noteq> Bullet
                    then Inr [ConsoleWarn ''Inline formatting not allowed without selection'']
                    else
                      let formattedLine =
                            (if formatType = H1 then toggleH1 lineContent
                             else if formatType = H2 then toggleH2 lineContent
                             else if formatType = H3 then toggleH3 lineContent
                             else if formatType = Bullet then toggleBulletList lineContent
                             else lineContent)
                      in Inr [Dispatch [\<lparr>change_from = line_from line, change_to = line_to line,
                                          change_insert = formattedLine\<rparr>] None,
                              Focus])
          else
            (case getSelectedLines state (selection_from state) (selection_to state) of
               Inl e \<Rightarrow> Inl e
             | Inr selectedLines \<Rightarrow>
                 let isSingleLine = (length selectedLines = 1)
                 in if (formatType = H1 \<or> formatType = H2 \<or> formatType = H3) \<and> \<not> isSingleLine
                    then Inr [ConsoleWarn ''Header formatting not allowed on multi-line selections'']
                    else if formatType = Bullet \<and> \<not> isSingleLine
                    then Inr [Dispatch
                                (map (\<lambda>line. \<lparr>change_from = line_from line, change_to = line_to line,
                                              change_insert = toggleBulletList (getLineContent state line)\<rparr>)
                                   selectedLines)
                                None,
                              Focus]
                    else
                      let selectedText = sliceDoc state (selection_from state) (selection_to state);
                          formattedText = toggleFormat selectedText formatType
                      in Inr [Dispatch [\<lparr>change_from = selection_from state,
                                          change_to = selection_to state,
                                          change_insert = formattedText\<rparr>]
                                (Some \<lparr>anchor = selection_from state,
                                       head = selection_from state + length formattedText\<rparr>),
                              Focus]))"

section \<open>Properties of the string primitives\<close>

lemma dropWhile_last_keep: "dropWhile P xs \<noteq> [] \<Longrightarrow> last (dropWhile P xs) = last xs"
  by (induction xs) (auto split: if_splits)

lemma trim_Nil [simp]: "trim [] = []"
  by (simp add: trim_def)

lemma trim_ends:
  assumes "trim s \<noteq> []"
  shows "\<not> isWhiteSpace (hd (trim s))" and "\<not> isWhiteSpace (last (trim s))"
proof -
  let ?d = "dropWhile isWhiteSpace s"
  let ?e = "dropWhile isWhiteSpace (rev ?d)"
  from assms have e: "?e \<noteq> []" by (simp add: trim_def)
  have d: "?d \<noteq> []"
  proof
    assume "?d = []"
    then have "?e = []" by (simp only: rev.simps dropWhile.simps)
    with e show False ..
  qed
  have "hd (trim s) = last ?e" using e by (simp add: trim_def hd_rev)
  also have "\<dots> = last (rev ?d)" using e by (rule dropWhile_last_keep)
  also have "\<dots> = hd ?d" using d by (simp add: last_rev)
  finally show "\<not> isWhiteSpace (hd (trim s))" using d hd_dropWhile by metis
  have "last (trim s) = hd ?e" using e by (simp add: trim_def last_rev)
  then show "\<not> isWhiteSpace (last (trim s))" using e hd_dropWhile by metis
qed

lemma trim_fixed:
  assumes "s = [] \<or> (\<not> isWhiteSpace (hd s) \<and> \<not> isWhiteSpace (last s))"
  shows "trim s = s"
proof (cases "s = []")
  case True
  then show ?thesis by simp
next
  case False
  with assms have h: "\<not> isWhiteSpace (hd s)" and l: "\<not> isWhiteSpace (last s)" by auto
  from False h have "dropWhile isWhiteSpace s = s" by (cases s) auto
  moreover from False l have "dropWhile isWhiteSpace (rev s) = rev s"
    by (cases "rev s") (auto simp: last_rev[symmetric] hd_rev)
  ultimately show ?thesis by (simp add: trim_def)
qed

lemma trim_fixed_iff:
  "trim s = s \<longleftrightarrow> s = [] \<or> (\<not> isWhiteSpace (hd s) \<and> \<not> isWhiteSpace (last s))"
  using trim_ends[of s] trim_fixed[of s] by metis

lemma trim_idem [simp]: "trim (trim s) = trim s"
  by (rule trim_fixed) (use trim_ends[of s] in blast)

lemma length_trim_le: "length (trim s) \<le> length s"
proof -
  have "length (trim s) \<le> length (dropWhile isWhiteSpace s)"
    unfolding trim_def length_rev by (metis length_dropWhile_le length_rev)
  also have "\<dots> \<le> length s" by (rule length_dropWhile_le)
  finally show ?thesis .
qed

lemma dropWhile_same_length: "length (dropWhile P xs) = length xs \<Longrightarrow> dropWhile P xs = xs"
proof (induction xs)
  case Nil
  then show ?case by simp
next
  case (Cons x xs)
  show ?case
  proof (cases "P x")
    case True
    with Cons.prems have "length (dropWhile P xs) = Suc (length xs)" by simp
    with length_dropWhile_le[of P xs] show ?thesis by simp
  next
    case False
    then show ?thesis by simp
  qed
qed

lemma trim_same_length:
  assumes "length (trim s) = length s"
  shows "trim s = s"
proof -
  let ?d = "dropWhile isWhiteSpace s"
  have 1: "length (trim s) \<le> length ?d"
    unfolding trim_def length_rev by (metis length_dropWhile_le length_rev)
  have 2: "length ?d \<le> length s" by (rule length_dropWhile_le)
  from 1 2 assms have "length ?d = length s" by simp
  then have d: "?d = s" by (rule dropWhile_same_length)
  from assms have "length (dropWhile isWhiteSpace (rev s)) = length (rev s)"
    by (simp add: trim_def d)
  then have "dropWhile isWhiteSpace (rev s) = rev s" by (rule dropWhile_same_length)
  then show ?thesis by (simp add: trim_def d)
qed

lemma trim_shorter: "trim s \<noteq> s \<Longrightarrow> length (trim s) < length s"
  using trim_same_length[of s] length_trim_le[of s] by linarith


lemma trim_wrap:
  "\<not> isWhiteSpace a \<Longrightarrow> \<not> isWhiteSpace b \<Longrightarrow> trim (a # m @ [b]) = a # m @ [b]"
  by (rule trim_fixed) simp

lemma startsWith_append [simp]: "startsWith (p @ s) p"
  by (simp add: startsWith_def)

lemma endsWith_append [simp]: "endsWith (s @ q) q"
  by (simp add: endsWith_def)

lemma startsWith_iff: "startsWith t p \<longleftrightarrow> (\<exists>r. t = p @ r)"
  unfolding startsWith_def by (metis append_eq_conv_conj append_take_drop_id)

lemma endsWith_iff: "endsWith t q \<longleftrightarrow> (\<exists>r. t = r @ q)"
proof
  assume "endsWith t q"
  then have "t = take (length t - length q) t @ q"
    unfolding endsWith_def by (metis append_take_drop_id)
  then show "\<exists>r. t = r @ q" ..
next
  assume "\<exists>r. t = r @ q"
  then show "endsWith t q" by auto
qed

lemma wrapped_iff:
  "startsWith t p \<and> endsWith t q \<and> length p + length q < length t
     \<longleftrightarrow> (\<exists>m. m \<noteq> [] \<and> t = p @ m @ q)"
proof
  assume h: "startsWith t p \<and> endsWith t q \<and> length p + length q < length t"
  then obtain r where r: "t = p @ r" by (auto simp: startsWith_iff)
  from h obtain r' where r': "t = r' @ q" by (auto simp: endsWith_iff)
  from h r r' have len: "length p < length r'" by (metis add_less_cancel_right length_append)
  from r r' have "p @ r = r' @ q" by simp
  then obtain us where "(p = r' @ us \<and> us @ r = q) \<or> (p @ us = r' \<and> r = us @ q)"
    by (auto simp: append_eq_append_conv2)
  with len have "r' = p @ us" "us \<noteq> []" by auto
  with r' show "\<exists>m. m \<noteq> [] \<and> t = p @ m @ q" by auto
next
  assume "\<exists>m. m \<noteq> [] \<and> t = p @ m @ q"
  then obtain m where m: "m \<noteq> []" "t = p @ m @ q" by blast
  have "endsWith ((p @ m) @ q) q" by (rule endsWith_append)
  with m show "startsWith t p \<and> endsWith t q \<and> length p + length q < length t"
    by (simp add: length_greater_0_conv)
qed

lemma slice_unwrap:
  "q \<noteq> [] \<Longrightarrow> slice_str (p @ m @ q) (int (length p)) (- int (length q)) = m"
  by (auto simp: slice_str_def Let_def)

section \<open>Properties of the header primitives\<close>

lemma js_lits:
  "js ''<b>'' = [0x3C, 0x62, 0x3E]" "js ''</b>'' = [0x3C, 0x2F, 0x62, 0x3E]"
  "js ''<i>'' = [0x3C, 0x69, 0x3E]" "js ''</i>'' = [0x3C, 0x2F, 0x69, 0x3E]"
  "js ''<u>'' = [0x3C, 0x75, 0x3E]" "js ''</u>'' = [0x3C, 0x2F, 0x75, 0x3E]"
  "js ''~~'' = [0x7E, 0x7E]"
  "js ''# '' = [hash, space]" "js ''## '' = [hash, hash, space]"
  "js ''### '' = [hash, hash, hash, space]"
  "js ''- '' = [0x2D, space]"
  by (simp_all add: js_def hash_def space_def)

lemma ws_facts [simp]:
  "\<not> isWhiteSpace hash" "isWhiteSpace space" "\<not> isWhiteSpace 0x3C" "\<not> isWhiteSpace 0x3E"
  "\<not> isWhiteSpace 0x7E" "\<not> isWhiteSpace 0x2D" "\<not> isWhiteSpace 0x2A" "space \<noteq> hash" "hash \<noteq> space"
  by (simp_all add: isWhiteSpace_def hash_def space_def)

lemma countHashes_eq:
  "k \<le> length t \<Longrightarrow> countHashes t k = k + length (takeWhile (\<lambda>c. c = hash) (drop k t))"
proof (induction t k rule: countHashes.induct)
  case (1 t k)
  show ?case
  proof (cases "k < length t \<and> t ! k = hash")
    case True
    then have d: "drop k t = hash # drop (Suc k) t" by (metis Cons_nth_drop_Suc)
    from True have "countHashes t k = countHashes t (k + 1)"
      by (subst countHashes.simps) simp
    also have "\<dots> = k + 1 + length (takeWhile (\<lambda>c. c = hash) (drop (k + 1) t))"
      using True by (intro "1.IH") auto
    finally show ?thesis by (simp add: d)
  next
    case False
    then have c: "countHashes t k = k" by (subst countHashes.simps) auto
    show ?thesis
    proof (cases "k < length t")
      case True
      with False have "t ! k \<noteq> hash" by simp
      moreover from True have "drop k t = t ! k # drop (Suc k) t" by (metis Cons_nth_drop_Suc)
      ultimately show ?thesis using c by simp
    next
      case False
      with "1.prems" have "drop k t = []" by simp
      then show ?thesis using c by simp
    qed
  qed
qed

lemma countHashes_0: "countHashes t 0 = length (takeWhile (\<lambda>c. c = hash) t)"
  using countHashes_eq[of 0 t] by simp

lemma strip_keeps_trimmed:
  assumes t: "trim t = t" and ne: "t \<noteq> []"
  shows "stripHeaderMarker t \<noteq> [] \<and> trim (stripHeaderMarker t) = stripHeaderMarker t"
proof (cases "hasHeaderMarker t")
  case False
  then show ?thesis using t ne by (simp add: stripHeaderMarker_def)
next
  case True
  let ?r = "dropWhile (\<lambda>c. c = hash) t"
  let ?c = "dropWhile isWhiteSpace ?r"
  from t ne have lt: "\<not> isWhiteSpace (last t)" by (simp add: trim_fixed_iff)
  from True have r: "?r \<noteq> []" unfolding hasHeaderMarker_def by (metis takeWhile.simps(1))
  then have lr: "last ?r = last t" by (rule dropWhile_last_keep)
  have c: "?c \<noteq> []"
  proof
    assume "?c = []"
    then have "\<forall>x \<in> set ?r. isWhiteSpace x" by (simp only: dropWhile_eq_Nil_conv)
    with r have "isWhiteSpace (last ?r)" using last_in_set by blast
    with lr lt show False by simp
  qed
  then have "\<not> isWhiteSpace (hd ?c)" by (rule hd_dropWhile)
  moreover have "last ?c = last t" using c lr dropWhile_last_keep by metis
  ultimately have "trim ?c = ?c" using lt by (intro trim_fixed) simp
  with c True show ?thesis by (simp add: stripHeaderMarker_def)
qed

lemma takeWhile_hashes:
  "takeWhile (\<lambda>c. c = hash) (replicate n hash @ space # c) = replicate n hash"
  by (induction n) auto

lemma dropWhile_hashes:
  "dropWhile (\<lambda>c. c = hash) (replicate n hash @ space # c) = space # c"
  by (induction n) auto

lemma strip_marked:
  assumes "0 < n" "c \<noteq> []" "\<not> isWhiteSpace (hd c)"
  shows "stripHeaderMarker (replicate n hash @ space # c) = c"
proof -
  let ?t = "replicate n hash @ space # c"
  have tw: "takeWhile (\<lambda>c. c = hash) ?t = replicate n hash"
    by (rule takeWhile_hashes)
  have dw: "dropWhile (\<lambda>c. c = hash) ?t = space # c"
    by (rule dropWhile_hashes)
  from assms have "dropWhile isWhiteSpace c = c" by (cases c) auto
  with assms tw dw show ?thesis by (simp add: stripHeaderMarker_def hasHeaderMarker_def)
qed

lemma trim_marked:
  assumes "0 < n" "c \<noteq> []" "\<not> isWhiteSpace (last c)"
  shows "trim (replicate n hash @ space # c) = replicate n hash @ space # c"
  using assms by (intro trim_fixed) (cases n, auto)

lemma getHeaderLevel_marked:
  assumes "0 < n" "n \<le> 3" "c \<noteq> []" "\<not> isWhiteSpace (last c)"
  shows "getHeaderLevel (replicate n hash @ space # c) = n"
proof -
  let ?t = "replicate n hash @ space # c"
  have "takeWhile (\<lambda>c. c = hash) ?t = replicate n hash"
    by (rule takeWhile_hashes)
  then have "countHashes ?t 0 = n" by (simp add: countHashes_0)
  moreover have "charAt ?t n = Some space" by (simp add: charAt_def nth_append)
  ultimately show ?thesis using assms
    by (simp add: getHeaderLevel_def trim_marked Let_def)
qed

section \<open>Style detectors and appliers: verified properties\<close>

subsection \<open>Bold removal\<close>

lemma removeBold_loop_exit:
  "\<not> (startsWith (removeBold_loop t) (js ''<b>'') \<and> endsWith (removeBold_loop t) (js ''</b>'') \<and>
      7 < length (removeBold_loop t))"
proof (induction t rule: removeBold_loop.induct)
  case (1 t)
  show ?case
  proof (cases "startsWith t (js ''<b>'') \<and> endsWith t (js ''</b>'') \<and> 7 < length t")
    case True
    then have "removeBold_loop t = removeBold_loop (slice_str t 3 (- 4))"
      by (subst removeBold_loop.simps) simp
    with True "1.IH" show ?thesis by simp
  next
    case False
    then have "removeBold_loop t = t" by (subst removeBold_loop.simps) auto
    with False show ?thesis by simp
  qed
qed

lemma bold_wrapped_iff:
  "startsWith t (js ''<b>'') \<and> endsWith t (js ''</b>'') \<and> 7 < length t
     \<longleftrightarrow> (\<exists>m. m \<noteq> [] \<and> t = js ''<b>'' @ m @ js ''</b>'')"
proof -
  have "length (js ''<b>'') + length (js ''</b>'') = 7" by (simp add: js_def)
  with wrapped_iff[of t "js ''<b>''" "js ''</b>''"] show ?thesis by (simp only:)
qed

lemma slice_3_4:
  assumes "length p = 3" "length q = 4"
  shows "slice_str (p @ m @ q) 3 (- 4) = m"
proof -
  from assms have "q \<noteq> []" by auto
  from slice_unwrap[OF this, of p m] assms show ?thesis by simp
qed

lemma removeBold_loop_layers: "\<exists>n. t = (applyBold ^^ n) (removeBold_loop t)"
proof (induction t rule: removeBold_loop.induct)
  case (1 t)
  show ?case
  proof (cases "startsWith t (js ''<b>'') \<and> endsWith t (js ''</b>'') \<and> 7 < length t")
    case True
    then obtain m where m: "t = js ''<b>'' @ m @ js ''</b>''"
      using bold_wrapped_iff by blast
    have "length (js ''<b>'') = 3" "length (js ''</b>'') = 4" by (simp_all add: js_def)
    then have sl: "slice_str t 3 (- 4) = m" unfolding m by (rule slice_3_4)
    from True have eq: "removeBold_loop t = removeBold_loop m"
      by (subst removeBold_loop.simps) (simp add: sl)
    from "1.IH" True sl obtain n where "m = (applyBold ^^ n) (removeBold_loop m)" by auto
    with m eq have "t = (applyBold ^^ Suc n) (removeBold_loop t)"
      by (simp add: applyBold_def)
    then show ?thesis ..
  next
    case False
    then have "removeBold_loop t = t" by (subst removeBold_loop.simps) auto
    then have "t = (applyBold ^^ 0) (removeBold_loop t)" by simp
    then show ?thesis ..
  qed
qed

text \<open>
  Claim C6: \<open>removeBold\<close> strips all nested \<open><b>\<dots></b>\<close> layers: on
  \<open><b><b>x</b></b>\<close> it returns \<open>x\<close>, while toggling \<open><b>x</b>\<close> twice gives
  \<open><b>x</b>\<close> back. In general the result of \<open>removeBold\<close> no longer satisfies the loop
  condition (starts with \<open><b>\<close>, ends with \<open></b>\<close>, longer than 7, that is a pair around
  non-empty content), and the trimmed input is the result wrapped in some number of bold
  layers.
\<close>

theorem removeBold_strips_all_layers:
  "removeBold (js ''<b><b>x</b></b>'') = js ''x'' \<and>
   toggleBold (toggleBold (js ''<b>x</b>'')) = js ''<b>x</b>'' \<and>
   \<not> (startsWith (removeBold s) (js ''<b>'') \<and> endsWith (removeBold s) (js ''</b>'') \<and>
      7 < length (removeBold s)) \<and>
   (\<exists>n. trim s = (applyBold ^^ n) (removeBold s))"
proof -
  have 1: "removeBold (js ''<b><b>x</b></b>'') = js ''x''" by code_simp
  have 2: "toggleBold (toggleBold (js ''<b>x</b>'')) = js ''<b>x</b>''" by code_simp
  have 3: "\<not> (startsWith (removeBold s) (js ''<b>'') \<and> endsWith (removeBold s) (js ''</b>'') \<and>
      7 < length (removeBold s))"
    unfolding removeBold_def by (rule removeBold_loop_exit)
  have 4: "\<exists>n. trim s = (applyBold ^^ n) (removeBold s)"
    unfolding removeBold_def by (rule removeBold_loop_layers)
  from 1 2 3 4 show ?thesis by blast
qed

text \<open>
  Claim C7: for every string, at most one of \<open>isH1\<close>, \<open>isH2\<close>, \<open>isH3\<close> is true.
\<close>

theorem heading_levels_exclusive:
  "\<not> (isH1 s \<and> isH2 s) \<and> \<not> (isH1 s \<and> isH3 s) \<and> \<not> (isH2 s \<and> isH3 s)"
  by (simp add: isH1_def isH2_def isH3_def)

subsection \<open>Heading application\<close>

lemma heading_apply_form:
  assumes "trim s \<noteq> []"
  defines "c \<equiv> stripHeaderMarker (trim s)"
  shows "c \<noteq> []" "\<not> isWhiteSpace (hd c)" "\<not> isWhiteSpace (last c)"
    "applyH1 s = replicate 1 hash @ space # c"
    "applyH2 s = replicate 2 hash @ space # c"
    "applyH3 s = replicate 3 hash @ space # c"
proof -
  have "c \<noteq> [] \<and> trim c = c"
    unfolding c_def using assms(1) by (intro strip_keeps_trimmed) simp_all
  then show "c \<noteq> []" "\<not> isWhiteSpace (hd c)" "\<not> isWhiteSpace (last c)"
    by (auto simp: trim_fixed_iff)
  show "applyH1 s = replicate 1 hash @ space # c"
    by (simp add: applyH1_def c_def js_lits)
  show "applyH2 s = replicate 2 hash @ space # c"
    by (simp add: applyH2_def c_def js_lits numeral_2_eq_2)
  show "applyH3 s = replicate 3 hash @ space # c"
    by (simp add: applyH3_def c_def js_lits numeral_3_eq_3)
qed

lemma heading_clean_marked:
  assumes "0 < n" "c \<noteq> []" "\<not> isWhiteSpace (hd c)" "\<not> isWhiteSpace (last c)"
  shows "stripHeaderMarker (trim (replicate n hash @ space # c)) = c"
  using assms by (simp add: trim_marked strip_marked)

lemma heading_clean_marked_123:
  assumes "c \<noteq> []" "\<not> isWhiteSpace (hd c)" "\<not> isWhiteSpace (last c)"
  shows "stripHeaderMarker (trim (hash # space # c)) = c"
    "stripHeaderMarker (trim (hash # hash # space # c)) = c"
    "stripHeaderMarker (trim (hash # hash # hash # space # c)) = c"
  using heading_clean_marked[of 1 c] heading_clean_marked[of 2 c] heading_clean_marked[of 3 c] assms
  by (simp_all add: numeral_2_eq_2 numeral_3_eq_3)

lemma apply_after_apply:
  assumes "trim s \<noteq> []"
  shows "applyH1 (applyH1 s) = applyH1 s" "applyH1 (applyH2 s) = applyH1 s"
    "applyH1 (applyH3 s) = applyH1 s" "applyH2 (applyH1 s) = applyH2 s"
    "applyH2 (applyH2 s) = applyH2 s" "applyH2 (applyH3 s) = applyH2 s"
    "applyH3 (applyH1 s) = applyH3 s" "applyH3 (applyH2 s) = applyH3 s"
    "applyH3 (applyH3 s) = applyH3 s"
proof -
  note f = heading_apply_form[OF assms]
  have k: "stripHeaderMarker (trim (applyH1 s)) = stripHeaderMarker (trim s)"
    "stripHeaderMarker (trim (applyH2 s)) = stripHeaderMarker (trim s)"
    "stripHeaderMarker (trim (applyH3 s)) = stripHeaderMarker (trim s)"
    unfolding f(4,5,6) using f(1,2,3)
    by (simp_all add: heading_clean_marked_123 numeral_2_eq_2 numeral_3_eq_3)
  show "applyH1 (applyH1 s) = applyH1 s" "applyH1 (applyH2 s) = applyH1 s"
    "applyH1 (applyH3 s) = applyH1 s" "applyH2 (applyH1 s) = applyH2 s"
    "applyH2 (applyH2 s) = applyH2 s" "applyH2 (applyH3 s) = applyH2 s"
    "applyH3 (applyH1 s) = applyH3 s" "applyH3 (applyH2 s) = applyH3 s"
    "applyH3 (applyH3 s) = applyH3 s"
    using k by (simp_all add: applyH1_def applyH2_def applyH3_def)
qed

lemma takeWhile_hash_run:
  assumes "ws \<noteq> []" "\<not> (hd ws = hash)"
  shows "takeWhile (\<lambda>c. c = hash) (replicate n hash @ ws @ rest) = replicate n hash"
    and "dropWhile (\<lambda>c. c = hash) (replicate n hash @ ws @ rest) = ws @ rest"
  using assms by (induction n) (cases ws; auto)+

lemma strip_run:
  assumes n: "0 < n" and ws: "ws \<noteq> []" "list_all isWhiteSpace ws"
    and rest: "rest = [] \<or> \<not> isWhiteSpace (hd rest)"
  shows "hasHeaderMarker (replicate n hash @ ws @ rest)"
    and "stripHeaderMarker (replicate n hash @ ws @ rest) = rest"
proof -
  let ?t = "replicate n hash @ ws @ rest"
  from ws have hw: "isWhiteSpace (hd ws)" by (cases ws) auto
  then have "hd ws \<noteq> hash" by auto
  note tw = takeWhile_hash_run[OF ws(1) this, of n rest]
  from ws(2) have a: "\<forall>x\<in>set ws. isWhiteSpace x" by (simp add: list_all_iff)
  from rest have r: "dropWhile isWhiteSpace rest = rest" by (cases rest) auto
  from a have d: "dropWhile isWhiteSpace (ws @ rest) = rest"
    by (simp add: dropWhile_append r)
  from ws(1) hw have t: "takeWhile isWhiteSpace (ws @ rest) \<noteq> []" by (cases ws) auto
  from n tw t show m: "hasHeaderMarker ?t" by (simp add: hasHeaderMarker_def)
  from m tw d show "stripHeaderMarker ?t = rest" by (simp add: stripHeaderMarker_def)
qed

lemma trim_run:
  assumes "0 < n" "rest \<noteq> []" "\<not> isWhiteSpace (last rest)"
  shows "trim (replicate n hash @ ws @ rest) = replicate n hash @ ws @ rest"
  using assms by (intro trim_fixed) (cases n, auto)

text \<open>
  Claim C8: applying a heading level strips an existing leading run of \<open>#\<close> characters
  plus white space and then prepends the level's markers and one space. For a line made
  of \<open>n > 0\<close> \<open>#\<close> characters, a non-empty white-space run and a rest that neither
  starts nor ends with white space, \<open>applyH1\<close>, \<open>applyH2\<close> and \<open>applyH3\<close> return
  \<open>#\<close>, \<open>##\<close> and \<open>###\<close>, a space and the rest. In particular
  \<open>applyH2 (applyH1 "text")\<close> is \<open>## text\<close>, and toggling h1 on the line
  \<open>## Already H2\<close> (directly, and through the orchestrator with a caret in the line)
  produces \<open># Already H2\<close>.
\<close>

theorem heading_apply_normalizes:
  assumes "0 < n" and "ws \<noteq> []" and "list_all isWhiteSpace ws"
    and "rest \<noteq> []" and "\<not> isWhiteSpace (hd rest)" and "\<not> isWhiteSpace (last rest)"
  shows "applyH1 (replicate n hash @ ws @ rest) = js ''# '' @ rest \<and>
         applyH2 (replicate n hash @ ws @ rest) = js ''## '' @ rest \<and>
         applyH3 (replicate n hash @ ws @ rest) = js ''### '' @ rest \<and>
         applyH2 (applyH1 (js ''text'')) = js ''## text'' \<and>
         toggleH1 (js ''## Already H2'') = js ''# Already H2'' \<and>
         applyFormatting
           (Some \<lparr>doc = [js ''## Already H2''], selection_from = 0, selection_to = 0\<rparr>) H1 =
           Inr [Dispatch [\<lparr>change_from = 0, change_to = 13,
                           change_insert = js ''# Already H2''\<rparr>] None, Focus]"
proof -
  let ?t = "replicate n hash @ ws @ rest"
  from assms have "trim ?t = ?t" by (intro trim_run)
  moreover from assms have "stripHeaderMarker ?t = rest" by (intro strip_run) simp_all
  ultimately have c: "stripHeaderMarker (trim ?t) = rest" by simp
  have 1: "applyH1 ?t = js ''# '' @ rest" by (simp add: applyH1_def c)
  have 2: "applyH2 ?t = js ''## '' @ rest" by (simp add: applyH2_def c)
  have 3: "applyH3 ?t = js ''### '' @ rest" by (simp add: applyH3_def c)
  have 4: "applyH2 (applyH1 (js ''text'')) = js ''## text''" by code_simp
  have 5: "toggleH1 (js ''## Already H2'') = js ''# Already H2''" by code_simp
  have 6: "applyFormatting
           (Some \<lparr>doc = [js ''## Already H2''], selection_from = 0, selection_to = 0\<rparr>) H1 =
           Inr [Dispatch [\<lparr>change_from = 0, change_to = 13,
                           change_insert = js ''# Already H2''\<rparr>] None, Focus]"
    by code_simp
  from 1 2 3 4 5 6 show ?thesis by blast
qed

theorem heading_apply_normalizes_witness:
  "applyH1 (js ''##  Already H2'') = js ''# Already H2'' \<and>
   applyH2 (js ''##  Already H2'') = js ''## Already H2'' \<and>
   applyH3 (js ''##  Already H2'') = js ''### Already H2''"
proof -
  have e: "js ''##  Already H2'' = replicate 2 hash @ js ''  '' @ js ''Already H2''"
    by (simp add: js_def hash_def numeral_2_eq_2)
  have h: "(0::nat) < 2" "js ''  '' \<noteq> []" "list_all isWhiteSpace (js ''  '')"
    "js ''Already H2'' \<noteq> []" "\<not> isWhiteSpace (hd (js ''Already H2''))"
    "\<not> isWhiteSpace (last (js ''Already H2''))"
    by (simp_all add: js_def isWhiteSpace_def)
  from heading_apply_normalizes[OF h] show ?thesis
    unfolding e by (simp add: js_def)
qed

subsection \<open>Detection after application\<close>

lemma trim_tagged:
  assumes "p \<noteq> []" "\<not> isWhiteSpace (hd p)" "q \<noteq> []" "\<not> isWhiteSpace (last q)"
  shows "trim (p @ s @ q) = p @ s @ q"
  using assms by (intro trim_fixed) simp

lemma tagged_wrapped:
  "startsWith (p @ s @ q) p \<and> endsWith (p @ s @ q) q \<and>
   length p + length q < length (p @ s @ q) \<longleftrightarrow> s \<noteq> []"
proof -
  have "endsWith ((p @ s) @ q) q" by (rule endsWith_append)
  then show ?thesis by auto
qed

lemma tag_facts:
  "js ''<b>'' \<noteq> []" "\<not> isWhiteSpace (hd (js ''<b>''))"
  "js ''</b>'' \<noteq> []" "\<not> isWhiteSpace (last (js ''</b>''))"
  "js ''<i>'' \<noteq> []" "\<not> isWhiteSpace (hd (js ''<i>''))"
  "js ''</i>'' \<noteq> []" "\<not> isWhiteSpace (last (js ''</i>''))"
  "js ''<u>'' \<noteq> []" "\<not> isWhiteSpace (hd (js ''<u>''))"
  "js ''</u>'' \<noteq> []" "\<not> isWhiteSpace (last (js ''</u>''))"
  "js ''~~'' \<noteq> []" "\<not> isWhiteSpace (hd (js ''~~''))" "\<not> isWhiteSpace (last (js ''~~''))"
  by (simp_all add: js_lits)

lemma trim_tags:
  "trim (js ''<b>'' @ s @ js ''</b>'') = js ''<b>'' @ s @ js ''</b>''"
  "trim (js ''<i>'' @ s @ js ''</i>'') = js ''<i>'' @ s @ js ''</i>''"
  "trim (js ''<u>'' @ s @ js ''</u>'') = js ''<u>'' @ s @ js ''</u>''"
  "trim (js ''~~'' @ s @ js ''~~'') = js ''~~'' @ s @ js ''~~''"
  by (rule trim_tagged; simp add: tag_facts)+

lemma tag_sums:
  "length (js ''<b>'') + length (js ''</b>'') = 7"
  "length (js ''<i>'') + length (js ''</i>'') = 7"
  "length (js ''<u>'') + length (js ''</u>'') = 7"
  "length (js ''~~'') + length (js ''~~'') = 4"
  by (simp_all add: js_def)

lemma tag_lengths:
  "length (js ''<b>'') = 3" "length (js ''</b>'') = 4"
  "length (js ''<i>'') = 3" "length (js ''</i>'') = 4"
  "length (js ''<u>'') = 3" "length (js ''</u>'') = 4"
  "length (js ''~~'') = 2"
  by (simp_all add: js_def)

lemma isBold_applyBold: "isBold (applyBold s) \<longleftrightarrow> s \<noteq> []"
  using tagged_wrapped[of "js ''<b>''" s "js ''</b>''"]
  by (simp only: isBold_def applyBold_def Let_def trim_tags tag_sums)

lemma isUnderline_applyUnderline: "isUnderline (applyUnderline s) \<longleftrightarrow> s \<noteq> []"
  using tagged_wrapped[of "js ''<u>''" s "js ''</u>''"]
  by (simp only: isUnderline_def applyUnderline_def Let_def trim_tags tag_sums)

lemma isStrikethrough_applyStrikethrough:
  "isStrikethrough (applyStrikethrough s) \<longleftrightarrow> s \<noteq> []"
  using tagged_wrapped[of "js ''~~''" s "js ''~~''"]
  by (simp only: isStrikethrough_def applyStrikethrough_def Let_def trim_tags tag_sums)

lemma italic_not_bold:
  "\<not> startsWith (js ''<i>'' @ r) (js ''<b>'')" "\<not> endsWith (r @ js ''</i>'') (js ''</b>'')"
  by (simp_all add: startsWith_def endsWith_def js_lits)

lemma isItalic_applyItalic: "isItalic (applyItalic s) \<longleftrightarrow> s \<noteq> []"
proof -
  have nb: "\<not> startsWith (js ''<i>'' @ s @ js ''</i>'') (js ''<b>'')"
    by (rule italic_not_bold)
  have "\<not> endsWith ((js ''<i>'' @ s) @ js ''</i>'') (js ''</b>'')"
    by (rule italic_not_bold)
  then have ne: "\<not> endsWith (js ''<i>'' @ s @ js ''</i>'') (js ''</b>'')" by simp
  note t = trim_tags(2)[of s]
  show ?thesis
    using tagged_wrapped[of "js ''<i>''" s "js ''</i>''"] nb ne
    by (simp only: isItalic_def applyItalic_def Let_def t tag_sums if_False simp_thms)
qed

lemma strip_bullet_keeps_trimmed:
  assumes t: "trim t = t" and ne: "t \<noteq> []"
  shows "stripBulletMarker t \<noteq> [] \<and> trim (stripBulletMarker t) = stripBulletMarker t"
proof (cases "testBullet t")
  case False
  then show ?thesis using t ne by (simp add: stripBulletMarker_def)
next
  case True
  then obtain c d rest where td: "t = c # d # rest"
    by (auto simp: testBullet_def split: list.splits)
  let ?r = "tl t"
  let ?c = "dropWhile isWhiteSpace ?r"
  from t ne have lt: "\<not> isWhiteSpace (last t)" by (simp add: trim_fixed_iff)
  from td have r: "?r \<noteq> []" and lr: "last ?r = last t" by auto
  have c: "?c \<noteq> []"
  proof
    assume "?c = []"
    then have "\<forall>x \<in> set ?r. isWhiteSpace x" by (simp only: dropWhile_eq_Nil_conv)
    with r have "isWhiteSpace (last ?r)" using last_in_set by blast
    with lr lt show False by simp
  qed
  then have "\<not> isWhiteSpace (hd ?c)" by (rule hd_dropWhile)
  moreover have "last ?c = last t" using c lr dropWhile_last_keep by metis
  ultimately have "trim ?c = ?c" using lt by (intro trim_fixed) simp
  with c True show ?thesis by (simp add: stripBulletMarker_def)
qed

lemma isBulletList_marked:
  assumes "c \<noteq> []" "\<not> isWhiteSpace (last c)"
  shows "isBulletList (js ''- '' @ c)"
proof -
  have "trim (0x2D # space # c) = 0x2D # space # c"
    using assms by (intro trim_fixed) simp
  then show ?thesis
    by (simp add: isBulletList_def js_lits testBullet_def isBulletChar_def)
qed

lemma getHeaderLevel_marked_123:
  assumes "c \<noteq> []" "\<not> isWhiteSpace (last c)"
  shows "getHeaderLevel (hash # space # c) = 1"
    "getHeaderLevel (hash # hash # space # c) = 2"
    "getHeaderLevel (hash # hash # hash # space # c) = 3"
  using getHeaderLevel_marked[of 1 c] getHeaderLevel_marked[of 2 c]
    getHeaderLevel_marked[of 3 c] assms
  by (simp_all add: numeral_2_eq_2 numeral_3_eq_3)

text \<open>
  Claim C10: for every string whose trim is non-empty, applying any of the eight styles
  yields text that the same style's detector recognises, so that the next toggle on the
  result takes the remove branch.
\<close>

theorem apply_then_detect:
  assumes "trim s \<noteq> []"
  shows "isBold (applyBold s) \<and> isItalic (applyItalic s) \<and> isUnderline (applyUnderline s) \<and>
         isStrikethrough (applyStrikethrough s) \<and> isH1 (applyH1 s) \<and> isH2 (applyH2 s) \<and>
         isH3 (applyH3 s) \<and> isBulletList (applyBulletList s) \<and>
         toggleBold (applyBold s) = removeBold (applyBold s) \<and>
         toggleItalic (applyItalic s) = removeItalic (applyItalic s) \<and>
         toggleUnderline (applyUnderline s) = removeUnderline (applyUnderline s) \<and>
         toggleStrikethrough (applyStrikethrough s) = removeStrikethrough (applyStrikethrough s) \<and>
         toggleH1 (applyH1 s) = removeHeader (applyH1 s) \<and>
         toggleH2 (applyH2 s) = removeHeader (applyH2 s) \<and>
         toggleH3 (applyH3 s) = removeHeader (applyH3 s) \<and>
         toggleBulletList (applyBulletList s) = removeBulletList (applyBulletList s)"
proof -
  from assms have ne: "s \<noteq> []" by auto
  note f = heading_apply_form[OF assms]
  have b: "isBold (applyBold s)" using ne by (simp add: isBold_applyBold)
  have i: "isItalic (applyItalic s)" using ne by (simp add: isItalic_applyItalic)
  have u: "isUnderline (applyUnderline s)" using ne by (simp add: isUnderline_applyUnderline)
  have k: "isStrikethrough (applyStrikethrough s)"
    using ne by (simp add: isStrikethrough_applyStrikethrough)
  have 1: "isH1 (applyH1 s)"
    unfolding f(4) isH1_def using f(1,3) by (simp add: getHeaderLevel_marked_123)
  have 2: "isH2 (applyH2 s)"
    unfolding f(5) isH2_def using f(1,3)
    by (simp add: getHeaderLevel_marked_123 numeral_2_eq_2)
  have 3: "isH3 (applyH3 s)"
    unfolding f(6) isH3_def using f(1,3)
    by (simp add: getHeaderLevel_marked_123 numeral_3_eq_3)
  have "stripBulletMarker (trim s) \<noteq> [] \<and>
        trim (stripBulletMarker (trim s)) = stripBulletMarker (trim s)"
    using assms by (intro strip_bullet_keeps_trimmed) simp_all
  then have l: "isBulletList (applyBulletList s)"
    unfolding applyBulletList_def Let_def
    by (intro isBulletList_marked) (auto simp: trim_fixed_iff)
  from b i u k 1 2 3 l show ?thesis
    by (simp add: toggleBold_def toggleItalic_def toggleUnderline_def toggleStrikethrough_def
        toggleH1_def toggleH2_def toggleH3_def toggleBulletList_def)
qed

theorem apply_then_detect_witness:
  "trim (js '' note '') \<noteq> [] \<and> isBold (applyBold (js '' note '')) \<and>
   isH2 (applyH2 (js '' note '')) \<and> isBulletList (applyBulletList (js '' note '')) \<and>
   toggleUnderline (applyUnderline (js '' note '')) = js '' note ''"
proof -
  have h: "trim (js '' note '') \<noteq> []" by code_simp
  have r: "removeUnderline (applyUnderline (js '' note '')) = js '' note ''" by code_simp
  from apply_then_detect[OF h] h r show ?thesis by simp
qed

subsection \<open>What the appliers wrap\<close>

lemma length_stripHeaderMarker:
  "hasHeaderMarker t \<Longrightarrow> length (stripHeaderMarker t) < length t"
proof -
  assume h: "hasHeaderMarker t"
  let ?r = "dropWhile (\<lambda>c. c = hash) t"
  from h have "takeWhile (\<lambda>c. c = hash) t \<noteq> []" by (simp add: hasHeaderMarker_def)
  then have "0 < length (takeWhile (\<lambda>c. c = hash) t)" by simp
  moreover have "length t = length (takeWhile (\<lambda>c. c = hash) t) + length ?r"
    by (metis length_append takeWhile_dropWhile_id)
  ultimately have "length ?r < length t" by simp
  moreover have "length (dropWhile isWhiteSpace ?r) \<le> length ?r" by (rule length_dropWhile_le)
  ultimately show ?thesis using h by (simp add: stripHeaderMarker_def)
qed

lemma stripHeaderMarker_fixed_iff: "stripHeaderMarker t = t \<longleftrightarrow> \<not> hasHeaderMarker t"
  using length_stripHeaderMarker[of t] by (auto simp: stripHeaderMarker_def)

lemma length_stripBulletMarker:
  "testBullet t \<Longrightarrow> length (stripBulletMarker t) < length t"
proof -
  assume h: "testBullet t"
  then have "t \<noteq> []" by (auto simp: testBullet_def)
  then have "length (tl t) < length t" by simp
  moreover have "length (dropWhile isWhiteSpace (tl t)) \<le> length (tl t)"
    by (rule length_dropWhile_le)
  ultimately show ?thesis using h by (simp add: stripBulletMarker_def)
qed

lemma stripBulletMarker_fixed_iff: "stripBulletMarker t = t \<longleftrightarrow> \<not> testBullet t"
  using length_stripBulletMarker[of t] by (auto simp: stripBulletMarker_def)

lemma heading_prefix_trimmed:
  "trim (stripHeaderMarker (trim s)) = stripHeaderMarker (trim s)"
proof (cases "trim s = []")
  case True
  then show ?thesis by (simp add: stripHeaderMarker_def hasHeaderMarker_def)
next
  case False
  then show ?thesis using strip_keeps_trimmed[of "trim s"] by simp
qed

lemma bullet_prefix_trimmed:
  "trim (stripBulletMarker (trim s)) = stripBulletMarker (trim s)"
proof (cases "trim s = []")
  case True
  then show ?thesis by (simp add: stripBulletMarker_def testBullet_def)
next
  case False
  then show ?thesis using strip_bullet_keeps_trimmed[of "trim s"] by simp
qed

lemma takeWhile_eq_replicate:
  "takeWhile (\<lambda>c. c = x) t = replicate (length (takeWhile (\<lambda>c. c = x) t)) x"
  by (induction t) auto

lemma header_marker_split:
  assumes "hasHeaderMarker t"
  shows "\<exists>n ws. 0 < n \<and> ws \<noteq> [] \<and> list_all isWhiteSpace ws \<and>
           t = replicate n hash @ ws @ stripHeaderMarker t"
proof -
  let ?h = "takeWhile (\<lambda>c. c = hash) t"
  let ?r = "dropWhile (\<lambda>c. c = hash) t"
  let ?w = "takeWhile isWhiteSpace ?r"
  from assms have h: "?h \<noteq> []" and w: "?w \<noteq> []" by (simp_all add: hasHeaderMarker_def)
  have 1: "?h = replicate (length ?h) hash" by (rule takeWhile_eq_replicate)
  have 2: "list_all isWhiteSpace ?w" by (simp add: list_all_iff) (meson set_takeWhileD)
  have "t = ?h @ ?w @ dropWhile isWhiteSpace ?r" by simp
  with assms have 3: "t = replicate (length ?h) hash @ ?w @ stripHeaderMarker t"
    using 1 by (simp add: stripHeaderMarker_def)
  from h have "0 < length ?h" by simp
  with w 2 3 show ?thesis by blast
qed

lemma header_marker_run:
  assumes "0 < n" "ws \<noteq> []" "list_all isWhiteSpace ws"
  shows "hasHeaderMarker (replicate n hash @ ws @ rest)"
proof -
  from assms have hw: "isWhiteSpace (hd ws)" by (cases ws) auto
  then have "hd ws \<noteq> hash" by auto
  note tw = takeWhile_hash_run[OF assms(2) this, of n rest]
  from assms(2) hw have "takeWhile isWhiteSpace (ws @ rest) \<noteq> []" by (cases ws) auto
  with assms(1) tw show ?thesis by (simp add: hasHeaderMarker_def)
qed

lemma hasHeaderMarker_iff:
  "hasHeaderMarker t =
     (\<exists>n ws rest. 0 < n \<and> ws \<noteq> [] \<and> list_all isWhiteSpace ws \<and> t = replicate n hash @ ws @ rest)"
  using header_marker_split[of t] header_marker_run by metis

lemma bullet_marker_split:
  assumes "testBullet t"
  shows "\<exists>m ws. isBulletChar m \<and> ws \<noteq> [] \<and> list_all isWhiteSpace ws \<and>
           t = m # ws @ stripBulletMarker t"
proof -
  from assms obtain m d rest where t: "t = m # d # rest" "isBulletChar m" "isWhiteSpace d"
    by (auto simp: testBullet_def split: list.splits)
  let ?w = "takeWhile isWhiteSpace (d # rest)"
  from t have w: "?w \<noteq> []" by simp
  have 2: "list_all isWhiteSpace ?w" by (simp add: list_all_iff) (meson set_takeWhileD)
  have "d # rest = ?w @ dropWhile isWhiteSpace (d # rest)" by simp
  with t assms have "t = m # ?w @ stripBulletMarker t"
    by (simp add: stripBulletMarker_def)
  with t(2) w 2 show ?thesis by blast
qed

lemma bullet_marker_run:
  assumes "isBulletChar m" "ws \<noteq> []" "list_all isWhiteSpace ws"
  shows "testBullet (m # ws @ rest)"
  using assms by (cases ws) (auto simp: testBullet_def)

lemma testBullet_iff:
  "testBullet t =
     (\<exists>m ws rest. isBulletChar m \<and> ws \<noteq> [] \<and> list_all isWhiteSpace ws \<and> t = m # ws @ rest)"
  using bullet_marker_split[of t] bullet_marker_run by metis

text \<open>
  Claim C9, amended: the inline appliers (bold, italic, underline, strikethrough) wrap
  their input as it is, surrounding white space included, so the markers enclose the
  trimmed content exactly when the input has no surrounding white space. The heading and
  bullet appliers prefix their marker to content that is always trimmed. When the trimmed
  input starts with a marker run (one or more \<open>#\<close>, or one \<open>-\<close> or \<open>*\<close>, followed by one
  or more white-space characters), the content is the trimmed input after that run, the
  whole white-space run included; otherwise the content is the trimmed input itself.
\<close>

theorem apply_wraps_amended:
  "applyBold s = js ''<b>'' @ s @ js ''</b>'' \<and>
   applyItalic s = js ''<i>'' @ s @ js ''</i>'' \<and>
   applyUnderline s = js ''<u>'' @ s @ js ''</u>'' \<and>
   applyStrikethrough s = js ''~~'' @ s @ js ''~~'' \<and>
   (applyBold s = js ''<b>'' @ trim s @ js ''</b>'') = (trim s = s) \<and>
   (applyItalic s = js ''<i>'' @ trim s @ js ''</i>'') = (trim s = s) \<and>
   (applyUnderline s = js ''<u>'' @ trim s @ js ''</u>'') = (trim s = s) \<and>
   (applyStrikethrough s = js ''~~'' @ trim s @ js ''~~'') = (trim s = s) \<and>
   (\<exists>c. trim c = c \<and> applyH1 s = js ''# '' @ c \<and> applyH2 s = js ''## '' @ c \<and>
        applyH3 s = js ''### '' @ c \<and> (c = trim s) = (\<not> hasHeaderMarker (trim s)) \<and>
        (if hasHeaderMarker (trim s)
         then \<exists>n ws. 0 < n \<and> ws \<noteq> [] \<and> list_all isWhiteSpace ws \<and>
                     trim s = replicate n hash @ ws @ c
         else c = trim s)) \<and>
   hasHeaderMarker (trim s) =
     (\<exists>n ws rest. 0 < n \<and> ws \<noteq> [] \<and> list_all isWhiteSpace ws \<and>
                  trim s = replicate n hash @ ws @ rest) \<and>
   (\<exists>c. trim c = c \<and> applyBulletList s = js ''- '' @ c \<and>
        (c = trim s) = (\<not> testBullet (trim s)) \<and>
        (if testBullet (trim s)
         then \<exists>m ws. isBulletChar m \<and> ws \<noteq> [] \<and> list_all isWhiteSpace ws \<and>
                     trim s = m # ws @ c
         else c = trim s)) \<and>
   testBullet (trim s) =
     (\<exists>m ws rest. isBulletChar m \<and> ws \<noteq> [] \<and> list_all isWhiteSpace ws \<and>
                  trim s = m # ws @ rest)"
proof -
  have inl: "applyBold s = js ''<b>'' @ s @ js ''</b>''"
    "applyItalic s = js ''<i>'' @ s @ js ''</i>''"
    "applyUnderline s = js ''<u>'' @ s @ js ''</u>''"
    "applyStrikethrough s = js ''~~'' @ s @ js ''~~''"
    by (simp_all add: applyBold_def applyItalic_def applyUnderline_def applyStrikethrough_def)
  have tr: "(applyBold s = js ''<b>'' @ trim s @ js ''</b>'') = (trim s = s)"
    "(applyItalic s = js ''<i>'' @ trim s @ js ''</i>'') = (trim s = s)"
    "(applyUnderline s = js ''<u>'' @ trim s @ js ''</u>'') = (trim s = s)"
    "(applyStrikethrough s = js ''~~'' @ trim s @ js ''~~'') = (trim s = s)"
    unfolding inl by auto
  let ?c = "stripHeaderMarker (trim s)"
  have hrun: "if hasHeaderMarker (trim s)
         then \<exists>n ws. 0 < n \<and> ws \<noteq> [] \<and> list_all isWhiteSpace ws \<and>
                     trim s = replicate n hash @ ws @ ?c
         else ?c = trim s"
    using header_marker_split[of "trim s"] by (simp add: stripHeaderMarker_fixed_iff)
  have "trim ?c = ?c \<and> applyH1 s = js ''# '' @ ?c \<and> applyH2 s = js ''## '' @ ?c \<and>
        applyH3 s = js ''### '' @ ?c \<and> (?c = trim s) = (\<not> hasHeaderMarker (trim s))"
    by (simp add: heading_prefix_trimmed applyH1_def applyH2_def applyH3_def
        stripHeaderMarker_fixed_iff)
  with hrun have hd: "\<exists>c. trim c = c \<and> applyH1 s = js ''# '' @ c \<and> applyH2 s = js ''## '' @ c \<and>
        applyH3 s = js ''### '' @ c \<and> (c = trim s) = (\<not> hasHeaderMarker (trim s)) \<and>
        (if hasHeaderMarker (trim s)
         then \<exists>n ws. 0 < n \<and> ws \<noteq> [] \<and> list_all isWhiteSpace ws \<and>
                     trim s = replicate n hash @ ws @ c
         else c = trim s)"
    by blast
  let ?b = "stripBulletMarker (trim s)"
  have brun: "if testBullet (trim s)
         then \<exists>m ws. isBulletChar m \<and> ws \<noteq> [] \<and> list_all isWhiteSpace ws \<and>
                     trim s = m # ws @ ?b
         else ?b = trim s"
    using bullet_marker_split[of "trim s"] by (simp add: stripBulletMarker_fixed_iff)
  have "trim ?b = ?b \<and> applyBulletList s = js ''- '' @ ?b \<and>
        (?b = trim s) = (\<not> testBullet (trim s))"
    by (simp add: bullet_prefix_trimmed applyBulletList_def stripBulletMarker_fixed_iff)
  with brun have bl: "\<exists>c. trim c = c \<and> applyBulletList s = js ''- '' @ c \<and>
        (c = trim s) = (\<not> testBullet (trim s)) \<and>
        (if testBullet (trim s)
         then \<exists>m ws. isBulletChar m \<and> ws \<noteq> [] \<and> list_all isWhiteSpace ws \<and>
                     trim s = m # ws @ c
         else c = trim s)"
    by blast
  note hi = hasHeaderMarker_iff[of "trim s"] and bi = testBullet_iff[of "trim s"]
  from inl tr hd hi bl bi show ?thesis by (intro conjI)
qed

theorem apply_wraps_amended_witness:
  "applyUnderline (js '' x '') = js ''<u> x </u>'' \<and>
   applyUnderline (js '' x '') \<noteq> js ''<u>'' @ trim (js '' x '') @ js ''</u>'' \<and>
   hasHeaderMarker (trim (js '' #  old '')) \<and>
   applyH2 (js '' #  old '') = js ''## old'' \<and>
   testBullet (trim (js '' *  x '')) \<and>
   applyBulletList (js '' *  x '') = js ''- x''"
proof -
  have "trim (js '' x '') \<noteq> js '' x ''" by code_simp
  with apply_wraps_amended[of "js '' x ''"] have
    "applyUnderline (js '' x '') = js ''<u> x </u>'' \<and>
     applyUnderline (js '' x '') \<noteq> js ''<u>'' @ trim (js '' x '') @ js ''</u>''"
    by (simp add: js_def)
  moreover have "hasHeaderMarker (trim (js '' #  old ''))"
    "applyH2 (js '' #  old '') = js ''## old''"
    "testBullet (trim (js '' *  x ''))"
    "applyBulletList (js '' *  x '') = js ''- x''"
    by code_simp+
  ultimately show ?thesis by blast
qed

text \<open>
  The claim as stated fails for the inline styles: \<open>applyBold\<close> on \<open>" x "\<close> keeps the
  spaces inside the tags.
\<close>

theorem apply_rewraps_trimmed_counterexample:
  "applyBold (js '' x '') = js ''<b> x </b>'' \<and>
   js ''<b>'' @ trim (js '' x '') @ js ''</b>'' = js ''<b>x</b>'' \<and>
   applyBold (js '' x '') \<noteq> js ''<b>'' @ trim (js '' x '') @ js ''</b>''"
  by code_simp

subsection \<open>Single-layer styles: underline and strikethrough\<close>

lemma isUnderline_iff:
  "isUnderline s \<longleftrightarrow> (\<exists>m. m \<noteq> [] \<and> trim s = js ''<u>'' @ m @ js ''</u>'')"
  using wrapped_iff[of "trim s" "js ''<u>''" "js ''</u>''"]
  by (simp only: isUnderline_def Let_def tag_sums)

lemma isUnderline_trim [simp]: "isUnderline (trim s) = isUnderline s"
  by (simp add: isUnderline_def)

lemma removeUnderline_wrapped:
  assumes "trim s = js ''<u>'' @ m @ js ''</u>''" "m \<noteq> []"
  shows "removeUnderline s = m"
proof -
  from assms have "isUnderline s" using isUnderline_iff by blast
  then have a: "isUnderline (trim s)" by simp
  have b: "slice_str (trim s) 3 (- 4) = m"
    unfolding assms(1) by (rule slice_3_4) (simp_all add: tag_lengths)
  show ?thesis unfolding removeUnderline_def Let_def using a b by (simp only: if_True)
qed

lemma removeUnderline_plain: "\<not> isUnderline s \<Longrightarrow> removeUnderline s = s"
  by (simp add: removeUnderline_def)

lemma removeUnderline_shorter:
  assumes "isUnderline s"
  shows "length (removeUnderline s) < length s"
proof -
  from assms obtain m where m: "m \<noteq> []" "trim s = js ''<u>'' @ m @ js ''</u>''"
    using isUnderline_iff by blast
  then have "removeUnderline s = m" by (intro removeUnderline_wrapped) simp_all
  moreover from m have "length m < length (trim s)" by (simp add: tag_lengths)
  ultimately show ?thesis using length_trim_le[of s] by simp
qed

lemma toggleUnderline_twice:
  "(toggleUnderline (toggleUnderline s) = s) =
     (if isUnderline s then trim s = s \<and> \<not> isUnderline (removeUnderline s) else s \<noteq> [])"
proof (cases "isUnderline s")
  case False
  then have t: "toggleUnderline s = applyUnderline s" by (simp add: toggleUnderline_def)
  show ?thesis
  proof (cases "s = []")
    case True
    then have "\<not> isUnderline (applyUnderline s)" by (simp add: isUnderline_applyUnderline)
    then have "toggleUnderline (applyUnderline s) = applyUnderline (applyUnderline s)"
      by (simp add: toggleUnderline_def)
    then have "toggleUnderline (toggleUnderline s) \<noteq> s"
      using True t by (simp add: applyUnderline_def js_lits)
    with True False show ?thesis by simp
  next
    case ne: False
    then have d: "isUnderline (applyUnderline s)" by (simp add: isUnderline_applyUnderline)
    have "removeUnderline (applyUnderline s) = s"
      using ne by (intro removeUnderline_wrapped) (simp_all add: applyUnderline_def trim_tags)
    with d t have "toggleUnderline (toggleUnderline s) = s" by (simp add: toggleUnderline_def)
    with ne False show ?thesis by simp
  qed
next
  case True
  then obtain m where m: "m \<noteq> []" "trim s = js ''<u>'' @ m @ js ''</u>''"
    using isUnderline_iff by blast
  then have r: "removeUnderline s = m" by (intro removeUnderline_wrapped) simp_all
  with True have t: "toggleUnderline s = m" by (simp add: toggleUnderline_def)
  show ?thesis
  proof (cases "isUnderline m")
    case um: True
    then have "length (removeUnderline m) < length m" by (rule removeUnderline_shorter)
    moreover have "length m < length s" using removeUnderline_shorter[OF True] r by simp
    ultimately have "removeUnderline m \<noteq> s" by auto
    with um t True r show ?thesis by (simp add: toggleUnderline_def)
  next
    case False
    then have "toggleUnderline m = trim s" by (simp add: toggleUnderline_def applyUnderline_def m)
    with False t True r show ?thesis by auto
  qed
qed

lemma removeUnderline_twice:
  "(removeUnderline (removeUnderline s) = removeUnderline s) = (\<not> isUnderline (removeUnderline s))"
  using removeUnderline_shorter[of "removeUnderline s"] removeUnderline_plain[of "removeUnderline s"]
  by auto


lemma slice_2_2:
  assumes "length p = 2" "length q = 2"
  shows "slice_str (p @ m @ q) 2 (- 2) = m"
proof -
  from assms have "q \<noteq> []" by auto
  from slice_unwrap[OF this, of p m] assms show ?thesis by simp
qed

lemma isStrikethrough_iff:
  "isStrikethrough s \<longleftrightarrow> (\<exists>m. m \<noteq> [] \<and> trim s = js ''~~'' @ m @ js ''~~'')"
  using wrapped_iff[of "trim s" "js ''~~''" "js ''~~''"]
  by (simp only: isStrikethrough_def Let_def tag_sums)

lemma isStrikethrough_trim [simp]: "isStrikethrough (trim s) = isStrikethrough s"
  by (simp add: isStrikethrough_def)

lemma removeStrikethrough_wrapped:
  assumes "trim s = js ''~~'' @ m @ js ''~~''" "m \<noteq> []"
  shows "removeStrikethrough s = m"
proof -
  from assms have "isStrikethrough s" using isStrikethrough_iff by blast
  then have a: "isStrikethrough (trim s)" by simp
  have b: "slice_str (trim s) 2 (- 2) = m"
    unfolding assms(1) by (rule slice_2_2) (simp_all add: tag_lengths)
  show ?thesis unfolding removeStrikethrough_def Let_def using a b by (simp only: if_True)
qed

lemma removeStrikethrough_plain: "\<not> isStrikethrough s \<Longrightarrow> removeStrikethrough s = s"
  by (simp add: removeStrikethrough_def)

lemma removeStrikethrough_shorter:
  assumes "isStrikethrough s"
  shows "length (removeStrikethrough s) < length s"
proof -
  from assms obtain m where m: "m \<noteq> []" "trim s = js ''~~'' @ m @ js ''~~''"
    using isStrikethrough_iff by blast
  then have "removeStrikethrough s = m" by (intro removeStrikethrough_wrapped) simp_all
  moreover from m have "length m < length (trim s)" by (simp add: tag_lengths)
  ultimately show ?thesis using length_trim_le[of s] by simp
qed

lemma toggleStrikethrough_twice:
  "(toggleStrikethrough (toggleStrikethrough s) = s) =
     (if isStrikethrough s then trim s = s \<and> \<not> isStrikethrough (removeStrikethrough s) else s \<noteq> [])"
proof (cases "isStrikethrough s")
  case False
  then have t: "toggleStrikethrough s = applyStrikethrough s" by (simp add: toggleStrikethrough_def)
  show ?thesis
  proof (cases "s = []")
    case True
    then have "\<not> isStrikethrough (applyStrikethrough s)" by (simp add: isStrikethrough_applyStrikethrough)
    then have "toggleStrikethrough (applyStrikethrough s) = applyStrikethrough (applyStrikethrough s)"
      by (simp add: toggleStrikethrough_def)
    then have "toggleStrikethrough (toggleStrikethrough s) \<noteq> s"
      using True t by (simp add: applyStrikethrough_def js_lits)
    with True False show ?thesis by simp
  next
    case ne: False
    then have d: "isStrikethrough (applyStrikethrough s)" by (simp add: isStrikethrough_applyStrikethrough)
    have "removeStrikethrough (applyStrikethrough s) = s"
      using ne by (intro removeStrikethrough_wrapped) (simp_all add: applyStrikethrough_def trim_tags)
    with d t have "toggleStrikethrough (toggleStrikethrough s) = s" by (simp add: toggleStrikethrough_def)
    with ne False show ?thesis by simp
  qed
next
  case True
  then obtain m where m: "m \<noteq> []" "trim s = js ''~~'' @ m @ js ''~~''"
    using isStrikethrough_iff by blast
  then have r: "removeStrikethrough s = m" by (intro removeStrikethrough_wrapped) simp_all
  with True have t: "toggleStrikethrough s = m" by (simp add: toggleStrikethrough_def)
  show ?thesis
  proof (cases "isStrikethrough m")
    case um: True
    then have "length (removeStrikethrough m) < length m" by (rule removeStrikethrough_shorter)
    moreover have "length m < length s" using removeStrikethrough_shorter[OF True] r by simp
    ultimately have "removeStrikethrough m \<noteq> s" by auto
    with um t True r show ?thesis by (simp add: toggleStrikethrough_def)
  next
    case False
    then have "toggleStrikethrough m = trim s" by (simp add: toggleStrikethrough_def applyStrikethrough_def m)
    with False t True r show ?thesis by auto
  qed
qed

lemma removeStrikethrough_twice:
  "(removeStrikethrough (removeStrikethrough s) = removeStrikethrough s) = (\<not> isStrikethrough (removeStrikethrough s))"
  using removeStrikethrough_shorter[of "removeStrikethrough s"] removeStrikethrough_plain[of "removeStrikethrough s"]
  by auto


text \<open>
  Claim C5, amended: toggling underline (or strikethrough) twice gives the string back
  exactly in these cases: the string is not detected as the style and is not empty; or
  it is detected, has no surrounding white space, and its content (what \<open>remove\<close>
  returns) is not detected again.
\<close>

theorem toggle_involution_amended:
  "(toggleUnderline (toggleUnderline s) = s) =
     (if isUnderline s then trim s = s \<and> \<not> isUnderline (removeUnderline s) else s \<noteq> []) \<and>
   (toggleStrikethrough (toggleStrikethrough s) = s) =
     (if isStrikethrough s then trim s = s \<and> \<not> isStrikethrough (removeStrikethrough s)
      else s \<noteq> [])"
  using toggleUnderline_twice[of s] toggleStrikethrough_twice[of s] by blast

theorem toggle_involution_amended_witness:
  "toggleUnderline (toggleUnderline (js ''<u>x</u>'')) = js ''<u>x</u>'' \<and>
   toggleStrikethrough (toggleStrikethrough (js '' x '')) = js '' x ''"
proof -
  have "isUnderline (js ''<u>x</u>'')" "trim (js ''<u>x</u>'') = js ''<u>x</u>''"
    "\<not> isUnderline (removeUnderline (js ''<u>x</u>''))"
    "\<not> isStrikethrough (js '' x '')" "js '' x '' \<noteq> []"
    by code_simp+
  with toggle_involution_amended[of "js ''<u>x</u>''"] toggle_involution_amended[of "js '' x ''"]
  show ?thesis by simp
qed

text \<open>
  The claim as stated fails: on a doubly wrapped string two toggles remove two layers, on
  a detected string with surrounding white space the white space is lost, and on the
  empty string two toggles wrap twice.
\<close>

theorem toggle_involution_counterexample:
  "toggleUnderline (toggleUnderline (js ''<u><u>x</u></u>'')) = js ''x'' \<and>
   toggleUnderline (toggleUnderline (js ''<u><u>x</u></u>'')) \<noteq> js ''<u><u>x</u></u>'' \<and>
   toggleUnderline (toggleUnderline (js '' <u>x</u> '')) = js ''<u>x</u>'' \<and>
   toggleUnderline (toggleUnderline (js '' <u>x</u> '')) \<noteq> js '' <u>x</u> '' \<and>
   toggleUnderline (toggleUnderline []) = js ''<u><u></u></u>'' \<and>
   toggleUnderline (toggleUnderline []) \<noteq> [] \<and>
   toggleStrikethrough (toggleStrikethrough (js ''~~~~x~~~~'')) = js ''x'' \<and>
   toggleStrikethrough (toggleStrikethrough (js ''~~~~x~~~~'')) \<noteq> js ''~~~~x~~~~'' \<and>
   toggleStrikethrough (toggleStrikethrough []) = js ''~~~~~~~~'' \<and>
   toggleStrikethrough (toggleStrikethrough []) \<noteq> []"
  by code_simp

subsection \<open>Removing twice\<close>

lemma removeBold_loop_stop:
  "\<not> (startsWith t (js ''<b>'') \<and> endsWith t (js ''</b>'') \<and> 7 < length t) \<Longrightarrow>
   removeBold_loop t = t"
  by (subst removeBold_loop.simps) auto

lemma length_take_drop: "length (take n (drop k t)) \<le> length t"
  by simp

lemma length_slice_str: "length (slice_str t a b) \<le> length t"
  unfolding slice_str_def Let_def by (rule length_take_drop)

lemma length_removeBold_loop: "length (removeBold_loop t) \<le> length t"
proof (induction t rule: removeBold_loop.induct)
  case (1 t)
  show ?case
  proof (cases "startsWith t (js ''<b>'') \<and> endsWith t (js ''</b>'') \<and> 7 < length t")
    case True
    then have "removeBold_loop t = removeBold_loop (slice_str t 3 (- 4))"
      by (subst removeBold_loop.simps) simp
    moreover have "length (removeBold_loop (slice_str t 3 (- 4))) \<le> length (slice_str t 3 (- 4))"
      using True by (intro "1.IH") simp
    ultimately show ?thesis using length_slice_str[of t 3 "- 4"] by simp
  next
    case False
    then show ?thesis by (simp add: removeBold_loop_stop)
  qed
qed

lemma removeBold_twice:
  "(removeBold (removeBold s) = removeBold s) = (trim (removeBold s) = removeBold s)"
proof (cases "trim (removeBold s) = removeBold s")
  case True
  have "removeBold_loop (removeBold s) = removeBold s"
    using removeBold_loop_exit[of "trim s"]
    unfolding removeBold_def[symmetric] by (rule removeBold_loop_stop)
  with True show ?thesis by (simp add: removeBold_def[of "removeBold s"])
next
  case False
  then have "length (trim (removeBold s)) < length (removeBold s)" by (rule trim_shorter)
  moreover have "length (removeBold (removeBold s)) \<le> length (trim (removeBold s))"
    unfolding removeBold_def[of "removeBold s"] by (rule length_removeBold_loop)
  ultimately have "removeBold (removeBold s) \<noteq> removeBold s" by auto
  with False show ?thesis by simp
qed

lemma italic_break_dead:
  "startsWith t (js ''<i>'') \<and> endsWith t (js ''</i>'') \<and> 7 < length t \<Longrightarrow>
   \<not> (startsWith t (js ''<b>'') \<or> endsWith t (js ''</b>''))"
proof -
  assume h: "startsWith t (js ''<i>'') \<and> endsWith t (js ''</i>'') \<and> 7 < length t"
  then obtain r where "t = js ''<i>'' @ r" by (auto simp: startsWith_iff)
  then have a: "\<not> startsWith t (js ''<b>'')" by (simp add: italic_not_bold)
  from h obtain r' where "t = r' @ js ''</i>''" by (auto simp: endsWith_iff)
  then have "\<not> endsWith t (js ''</b>'')" by (simp add: italic_not_bold)
  with a show ?thesis by simp
qed

lemma removeItalic_loop_stop:
  "\<not> (startsWith t (js ''<i>'') \<and> endsWith t (js ''</i>'') \<and> 7 < length t) \<Longrightarrow>
   removeItalic_loop t = t"
  by (subst removeItalic_loop.simps) auto

lemma removeItalic_loop_step:
  assumes "startsWith t (js ''<i>'') \<and> endsWith t (js ''</i>'') \<and> 7 < length t"
  shows "removeItalic_loop t = removeItalic_loop (slice_str t 3 (- 4))"
  using assms italic_break_dead[OF assms] by (subst removeItalic_loop.simps) simp

lemma removeItalic_loop_exit:
  "\<not> (startsWith (removeItalic_loop t) (js ''<i>'') \<and>
      endsWith (removeItalic_loop t) (js ''</i>'') \<and> 7 < length (removeItalic_loop t))"
proof (induction t rule: removeItalic_loop.induct)
  case (1 t)
  show ?case
  proof (cases "startsWith t (js ''<i>'') \<and> endsWith t (js ''</i>'') \<and> 7 < length t")
    case True
    note d = italic_break_dead[OF True]
    from True d "1.IH" show ?thesis by (simp add: removeItalic_loop_step)
  next
    case False
    then show ?thesis by (simp add: removeItalic_loop_stop)
  qed
qed

lemma length_removeItalic_loop: "length (removeItalic_loop t) \<le> length t"
proof (induction t rule: removeItalic_loop.induct)
  case (1 t)
  show ?case
  proof (cases "startsWith t (js ''<i>'') \<and> endsWith t (js ''</i>'') \<and> 7 < length t")
    case True
    note d = italic_break_dead[OF True]
    have "length (removeItalic_loop (slice_str t 3 (- 4))) \<le> length (slice_str t 3 (- 4))"
      using True d by (intro "1.IH") simp_all
    then show ?thesis
      using length_slice_str[of t 3 "- 4"] True by (simp add: removeItalic_loop_step)
  next
    case False
    then show ?thesis by (simp add: removeItalic_loop_stop)
  qed
qed

lemma removeItalic_twice:
  "(removeItalic (removeItalic s) = removeItalic s) = (trim (removeItalic s) = removeItalic s)"
proof (cases "trim (removeItalic s) = removeItalic s")
  case True
  have "removeItalic_loop (removeItalic s) = removeItalic s"
    using removeItalic_loop_exit[of "trim s"]
    unfolding removeItalic_def[symmetric] by (rule removeItalic_loop_stop)
  with True show ?thesis by (simp add: removeItalic_def[of "removeItalic s"])
next
  case False
  then have "length (trim (removeItalic s)) < length (removeItalic s)" by (rule trim_shorter)
  moreover have "length (removeItalic (removeItalic s)) \<le> length (trim (removeItalic s))"
    unfolding removeItalic_def[of "removeItalic s"] by (rule length_removeItalic_loop)
  ultimately have "removeItalic (removeItalic s) \<noteq> removeItalic s" by auto
  with False show ?thesis by simp
qed

lemma removeHeader_twice:
  "(removeHeader (removeHeader s) = removeHeader s) = (\<not> hasHeaderMarker (removeHeader s))"
  by (simp add: removeHeader_def heading_prefix_trimmed stripHeaderMarker_fixed_iff)

lemma removeHeader_plain:
  "\<not> hasHeaderMarker (trim s) \<Longrightarrow> removeHeader s = trim s \<and> removeHeader (removeHeader s) = removeHeader s"
  by (simp add: removeHeader_def stripHeaderMarker_def)

lemma removeBulletList_twice:
  "(removeBulletList (removeBulletList s) = removeBulletList s) =
     (\<not> testBullet (removeBulletList s))"
  by (simp add: removeBulletList_def bullet_prefix_trimmed stripBulletMarker_fixed_iff)


lemma isBulletList_removeBulletList:
  "isBulletList (removeBulletList s) = testBullet (removeBulletList s)"
  by (simp add: isBulletList_def removeBulletList_def bullet_prefix_trimmed)

text \<open>
  Claim C4, amended: \<open>remove (remove s) = remove s\<close> holds exactly when \<open>remove s\<close> carries
  nothing more to strip. For bold and italic: when \<open>remove s\<close> has no surrounding white
  space. For underline and strikethrough, which strip one layer: when \<open>remove s\<close> is not
  detected as the style again. For headings: when \<open>remove s\<close> does not start with a run of
  \<open>#\<close> followed by white space; in particular on input whose trim has no such run. For
  bullets: when \<open>remove s\<close> is not a bullet item again.
\<close>

theorem remove_idempotent_amended:
  "(removeBold (removeBold s) = removeBold s) = (trim (removeBold s) = removeBold s) \<and>
   (removeItalic (removeItalic s) = removeItalic s) = (trim (removeItalic s) = removeItalic s) \<and>
   (removeUnderline (removeUnderline s) = removeUnderline s) =
     (\<not> isUnderline (removeUnderline s)) \<and>
   (removeStrikethrough (removeStrikethrough s) = removeStrikethrough s) =
     (\<not> isStrikethrough (removeStrikethrough s)) \<and>
   (removeHeader (removeHeader s) = removeHeader s) = (\<not> hasHeaderMarker (removeHeader s)) \<and>
   (\<not> hasHeaderMarker (trim s) \<longrightarrow> removeHeader (removeHeader s) = removeHeader s) \<and>
   (removeBulletList (removeBulletList s) = removeBulletList s) =
     (\<not> isBulletList (removeBulletList s))"
  using removeBold_twice[of s] removeItalic_twice[of s] removeUnderline_twice[of s]
    removeStrikethrough_twice[of s] removeHeader_twice[of s] removeHeader_plain[of s]
    removeBulletList_twice[of s] isBulletList_removeBulletList[of s]
  by blast

theorem remove_idempotent_amended_witness:
  "\<not> hasHeaderMarker (trim (js '' plain text '')) \<and>
   removeHeader (removeHeader (js '' plain text '')) = removeHeader (js '' plain text '') \<and>
   removeBold (removeBold (js ''<b><b>x</b></b>'')) = removeBold (js ''<b><b>x</b></b>'') \<and>
   removeUnderline (removeUnderline (js ''<u>x</u>'')) = removeUnderline (js ''<u>x</u>'')"
proof -
  have "\<not> hasHeaderMarker (trim (js '' plain text ''))"
    "trim (removeBold (js ''<b><b>x</b></b>'')) = removeBold (js ''<b><b>x</b></b>'')"
    "\<not> isUnderline (removeUnderline (js ''<u>x</u>''))"
    by code_simp+
  with remove_idempotent_amended[of "js '' plain text ''"]
    remove_idempotent_amended[of "js ''<b><b>x</b></b>''"]
    remove_idempotent_amended[of "js ''<u>x</u>''"]
  show ?thesis by blast
qed

text \<open>
  The claim as stated fails for every style: a second \<open>remove\<close> strips a second layer
  or marker, or the white space that the first one uncovered. The last input is not a
  header (its level is 0) and \<open>removeHeader\<close> is still not idempotent on it.
\<close>

theorem remove_idempotent_counterexample:
  "removeUnderline (js ''<u><u>x</u></u>'') = js ''<u>x</u>'' \<and>
   removeUnderline (removeUnderline (js ''<u><u>x</u></u>'')) = js ''x'' \<and>
   removeUnderline (removeUnderline (js ''<u><u>x</u></u>'')) \<noteq>
     removeUnderline (js ''<u><u>x</u></u>'') \<and>
   removeStrikethrough (removeStrikethrough (js ''~~~~x~~~~'')) \<noteq>
     removeStrikethrough (js ''~~~~x~~~~'') \<and>
   removeBold (js ''<b> x </b>'') = js '' x '' \<and>
   removeBold (removeBold (js ''<b> x </b>'')) = js ''x'' \<and>
   removeBold (removeBold (js ''<b> x </b>'')) \<noteq> removeBold (js ''<b> x </b>'') \<and>
   removeItalic (removeItalic (js ''<i> x </i>'')) \<noteq> removeItalic (js ''<i> x </i>'') \<and>
   removeHeader (js ''# # x'') = js ''# x'' \<and>
   removeHeader (removeHeader (js ''# # x'')) = js ''x'' \<and>
   removeHeader (removeHeader (js ''# # x'')) \<noteq> removeHeader (js ''# # x'') \<and>
   removeBulletList (removeBulletList (js ''- - x'')) \<noteq> removeBulletList (js ''- - x'') \<and>
   getHeaderLevel (js ''#### # x'') = 0 \<and>
   removeHeader (removeHeader (js ''#### # x'')) \<noteq> removeHeader (js ''#### # x'')"
  by code_simp

section \<open>Properties of the document interface\<close>

lemma length_docString_Cons:
  "length (docString (l # ls)) = length l + (if ls = [] then 0 else 1 + length (docString ls))"
  by simp

lemma line_slice:
  "i < length d \<Longrightarrow> take (length (d ! i)) (drop (lineStart d i) (docString d)) = d ! i"
proof (induction d arbitrary: i)
  case Nil
  then show ?case by simp
next
  case (Cons l ls)
  show ?case
  proof (cases i)
    case 0
    then show ?thesis by simp
  next
    case (Suc j)
    with Cons.prems have j: "j < length ls" by simp
    then have "ls \<noteq> []" by auto
    with Suc Cons.IH[OF j] show ?thesis by simp
  qed
qed

lemma sliceDoc_mkLine:
  assumes "1 \<le> n" "n \<le> length (doc st)"
  shows "sliceDoc st (line_from (mkLine (doc st) n)) (line_to (mkLine (doc st) n)) =
         line_text (mkLine (doc st) n)"
  using assms line_slice[of "n - 1" "doc st"] by (simp add: sliceDoc_def mkLine_def)

lemma lineAt_scan_Inr:
  "lineAt_scan ls off n pos = Inr l \<Longrightarrow>
   \<exists>k < length ls. l = \<lparr>line_from = off + lineStart ls k,
                        line_to = off + lineStart ls k + length (ls ! k),
                        line_number = n + k, line_text = ls ! k\<rparr>"
proof (induction ls arbitrary: off n)
  case Nil
  then show ?case by simp
next
  case (Cons x xs)
  show ?case
  proof (cases "pos \<le> off + length x")
    case True
    with Cons.prems have "l = \<lparr>line_from = off + lineStart (x # xs) 0,
        line_to = off + lineStart (x # xs) 0 + length ((x # xs) ! 0),
        line_number = n + 0, line_text = (x # xs) ! 0\<rparr>" by simp
    then show ?thesis by blast
  next
    case False
    with Cons.prems have "lineAt_scan xs (off + length x + 1) (n + 1) pos = Inr l" by simp
    from Cons.IH[OF this] obtain k where k: "k < length xs"
      "l = \<lparr>line_from = off + length x + 1 + lineStart xs k,
            line_to = off + length x + 1 + lineStart xs k + length (xs ! k),
            line_number = n + 1 + k, line_text = xs ! k\<rparr>" by blast
    then have "Suc k < length (x # xs) \<and>
      l = \<lparr>line_from = off + lineStart (x # xs) (Suc k),
           line_to = off + lineStart (x # xs) (Suc k) + length ((x # xs) ! Suc k),
           line_number = n + Suc k, line_text = (x # xs) ! Suc k\<rparr>" by simp
    then show ?thesis by blast
  qed
qed

lemma lineAt_Inr:
  assumes "lineAt d pos = Inr l"
  shows "1 \<le> line_number l" "line_number l \<le> length d" "l = mkLine d (line_number l)"
proof -
  from assms obtain k where k: "k < length d"
    "l = \<lparr>line_from = 0 + lineStart d k, line_to = 0 + lineStart d k + length (d ! k),
          line_number = 1 + k, line_text = d ! k\<rparr>"
    unfolding lineAt_def using lineAt_scan_Inr by blast
  then show "1 \<le> line_number l" "line_number l \<le> length d" "l = mkLine d (line_number l)"
    by (simp_all add: mkLine_def)
qed

lemma lineAt_scan_total:
  "ls \<noteq> [] \<Longrightarrow> pos \<le> off + length (docString ls) \<Longrightarrow> \<exists>l. lineAt_scan ls off n pos = Inr l"
proof (induction ls arbitrary: off n)
  case Nil
  then show ?case by simp
next
  case (Cons x xs)
  show ?case
  proof (cases "pos \<le> off + length x")
    case True
    then show ?thesis by simp
  next
    case False
    with Cons.prems have ne: "xs \<noteq> []" by (auto split: if_splits)
    with Cons.prems have "pos \<le> (off + length x + 1) + length (docString xs)" by simp
    from Cons.IH[OF ne this] False show ?thesis by simp
  qed
qed

lemma lineAt_total:
  "d \<noteq> [] \<Longrightarrow> pos \<le> length (docString d) \<Longrightarrow> \<exists>l. lineAt d pos = Inr l"
  unfolding lineAt_def using lineAt_scan_total[of d pos 0 1] by simp

lemma lineAt_scan_mono:
  "lineAt_scan ls off n p = Inr a \<Longrightarrow> lineAt_scan ls off n q = Inr b \<Longrightarrow> p \<le> q \<Longrightarrow>
   line_number a \<le> line_number b"
proof (induction ls arbitrary: off n)
  case Nil
  then show ?case by simp
next
  case (Cons x xs)
  show ?case
  proof (cases "p \<le> off + length x")
    case True
    with Cons.prems(1) have "line_number a = n" by auto
    moreover from lineAt_scan_Inr[OF Cons.prems(2)] have "n \<le> line_number b" by auto
    ultimately show ?thesis by simp
  next
    case False
    with Cons.prems have "\<not> q \<le> off + length x" by simp
    with False Cons.prems show ?thesis using Cons.IH by simp
  qed
qed

lemma lineAt_mono:
  "lineAt d p = Inr a \<Longrightarrow> lineAt d q = Inr b \<Longrightarrow> p \<le> q \<Longrightarrow> line_number a \<le> line_number b"
  unfolding lineAt_def by (rule lineAt_scan_mono)

lemma pushLines_in_range:
  "\<forall>n \<in> set ns. 1 \<le> n \<and> n \<le> length d \<Longrightarrow> pushLines d ns = Inr (map (mkLine d) ns)"
  by (induction ns) (simp_all add: doc_line_def)

lemma pushLines_length: "pushLines d ns = Inr ls \<Longrightarrow> length ls = length ns"
  by (induction ns arbitrary: ls) (auto split: sum.splits)

lemma getSelectedLines_ok:
  assumes "doc st \<noteq> []" "from_pos \<le> to_pos" "to_pos \<le> length (docString (doc st))"
  shows "\<exists>a b. lineAt (doc st) from_pos = Inr a \<and> lineAt (doc st) to_pos = Inr b \<and>
           1 \<le> line_number a \<and> line_number a \<le> line_number b \<and>
           line_number b \<le> length (doc st) \<and>
           getSelectedLines st from_pos to_pos =
             Inr (map (mkLine (doc st)) [line_number a ..< Suc (line_number b)])"
proof -
  from assms obtain a where a: "lineAt (doc st) from_pos = Inr a"
    using lineAt_total[of "doc st" from_pos] by auto
  from assms obtain b where b: "lineAt (doc st) to_pos = Inr b"
    using lineAt_total[of "doc st" to_pos] by auto
  note la = lineAt_Inr[OF a] and lb = lineAt_Inr[OF b]
  from a b assms(2) have le: "line_number a \<le> line_number b" by (rule lineAt_mono)
  have "pushLines (doc st) [line_number a ..< Suc (line_number b)] =
        Inr (map (mkLine (doc st)) [line_number a ..< Suc (line_number b)])"
    using la(1) lb(2) by (intro pushLines_in_range) auto
  with a b have "getSelectedLines st from_pos to_pos =
      Inr (map (mkLine (doc st)) [line_number a ..< Suc (line_number b)])"
    by (simp add: getSelectedLines_def)
  with a b la(1) le lb(2) show ?thesis by blast
qed

lemma lineStart_Suc:
  "i < length d \<Longrightarrow> lineStart d (Suc i) = lineStart d i + length (d ! i) + 1"
proof (induction d arbitrary: i)
  case Nil
  then show ?case by simp
next
  case (Cons x xs)
  show ?case
  proof (cases i)
    case 0
    then show ?thesis by simp
  next
    case (Suc j)
    with Cons.prems have "j < length xs" by simp
    from Cons.IH[OF this] Suc show ?thesis by simp
  qed
qed

lemma lineStart_after:
  "i < j \<Longrightarrow> j < length d \<Longrightarrow> lineStart d i + length (d ! i) < lineStart d j"
proof (induction j)
  case 0
  then show ?case by simp
next
  case (Suc j)
  from Suc.prems have j: "j < length d" by simp
  show ?case
  proof (cases "i = j")
    case True
    with j show ?thesis by (simp add: lineStart_Suc)
  next
    case False
    with Suc.prems have "i < j" by simp
    from Suc.IH[OF this j] j show ?thesis by (simp add: lineStart_Suc)
  qed
qed

lemma mkLine_after:
  assumes "1 \<le> m" "m < n" "n \<le> length d"
  shows "line_to (mkLine d m) < line_from (mkLine d n)"
  using assms lineStart_after[of "m - 1" "n - 1" d] by (simp add: mkLine_def)

lemma mkLine_from_le_to: "line_from (mkLine d n) \<le> line_to (mkLine d n)"
  by (simp add: mkLine_def)

lemma lineAt_scan_around:
  "lineAt_scan ls off n pos = Inr l \<Longrightarrow> off \<le> pos \<Longrightarrow> line_from l \<le> pos \<and> pos \<le> line_to l"
proof (induction ls arbitrary: off n)
  case Nil
  then show ?case by simp
next
  case (Cons x xs)
  show ?case
  proof (cases "pos \<le> off + length x")
    case True
    with Cons.prems show ?thesis by auto
  next
    case False
    with Cons.prems have "lineAt_scan xs (off + length x + 1) (n + 1) pos = Inr l" by simp
    moreover from False have "off + length x + 1 \<le> pos" by simp
    ultimately show ?thesis by (rule Cons.IH)
  qed
qed

lemma lineAt_around:
  "lineAt d pos = Inr l \<Longrightarrow> line_from l \<le> pos \<and> pos \<le> line_to l"
  unfolding lineAt_def using lineAt_scan_around[of d 0 1 pos l] by simp

lemma filter_upt_range:
  assumes "1 \<le> a" "b \<le> len"
  shows "filter (\<lambda>n. a \<le> n \<and> n \<le> b) [1 ..< Suc len] = [a ..< Suc b]"
proof (rule sorted_distinct_set_unique)
  show "sorted (filter (\<lambda>n. a \<le> n \<and> n \<le> b) [1 ..< Suc len])"
    by (rule sorted_wrt_filter) (rule sorted_upt)
  show "distinct (filter (\<lambda>n. a \<le> n \<and> n \<le> b) [1 ..< Suc len])"
    by (rule distinct_filter) (rule distinct_upt)
  show "sorted [a ..< Suc b]" by (rule sorted_upt)
  show "distinct [a ..< Suc b]" by (rule distinct_upt)
  show "set (filter (\<lambda>n. a \<le> n \<and> n \<le> b) [1 ..< Suc len]) = set [a ..< Suc b]"
    using assms by auto
qed

lemma touched_by_positions:
  assumes a: "lineAt d from_pos = Inr a" and b: "lineAt d to_pos = Inr b"
  shows "map (mkLine d) [line_number a ..< Suc (line_number b)] =
         filter (\<lambda>l. line_from l \<le> to_pos \<and> from_pos \<le> line_to l)
           (map (mkLine d) [1 ..< Suc (length d)])"
proof -
  note la = lineAt_Inr[OF a] and lb = lineAt_Inr[OF b]
  from lineAt_around[OF a] la(3) have ra:
    "line_from (mkLine d (line_number a)) \<le> from_pos" "from_pos \<le> line_to (mkLine d (line_number a))"
    by simp_all
  from lineAt_around[OF b] lb(3) have rb:
    "line_from (mkLine d (line_number b)) \<le> to_pos" "to_pos \<le> line_to (mkLine d (line_number b))"
    by simp_all
  have key: "(line_from (mkLine d n) \<le> to_pos \<and> from_pos \<le> line_to (mkLine d n)) =
             (line_number a \<le> n \<and> n \<le> line_number b)"
    if n: "n \<in> set [1 ..< Suc (length d)]" for n
  proof -
    from n have n1: "1 \<le> n" and n2: "n \<le> length d" by auto
    have 1: "from_pos \<le> line_to (mkLine d n) \<longleftrightarrow> line_number a \<le> n"
    proof (cases "line_number a \<le> n")
      case True
      have "line_to (mkLine d (line_number a)) \<le> line_to (mkLine d n)"
      proof (cases "line_number a = n")
        case True
        then show ?thesis by simp
      next
        case False
        with True have "line_number a < n" by simp
        from mkLine_after[OF la(1) this n2] mkLine_from_le_to[of d n] show ?thesis by simp
      qed
      with ra(2) True show ?thesis by simp
    next
      case False
      then have "n < line_number a" by simp
      from mkLine_after[OF n1 this la(2)] ra(1) False show ?thesis by simp
    qed
    have 2: "line_from (mkLine d n) \<le> to_pos \<longleftrightarrow> n \<le> line_number b"
    proof (cases "n \<le> line_number b")
      case True
      have "line_from (mkLine d n) \<le> line_from (mkLine d (line_number b))"
      proof (cases "n = line_number b")
        case True
        then show ?thesis by simp
      next
        case False
        with True have "n < line_number b" by simp
        from mkLine_after[OF n1 this lb(2)] mkLine_from_le_to[of d n] show ?thesis by simp
      qed
      with rb(1) True show ?thesis by simp
    next
      case False
      then have "line_number b < n" by simp
      from mkLine_after[OF lb(1) this n2] rb(2) False show ?thesis by simp
    qed
    from 1 2 show ?thesis by blast
  qed
  have "filter (\<lambda>l. line_from l \<le> to_pos \<and> from_pos \<le> line_to l)
           (map (mkLine d) [1 ..< Suc (length d)]) =
        map (mkLine d) (filter (\<lambda>n. line_from (mkLine d n) \<le> to_pos \<and>
                                     from_pos \<le> line_to (mkLine d n)) [1 ..< Suc (length d)])"
    by (simp add: filter_map comp_def)
  also have "filter (\<lambda>n. line_from (mkLine d n) \<le> to_pos \<and> from_pos \<le> line_to (mkLine d n))
               [1 ..< Suc (length d)] =
             filter (\<lambda>n. line_number a \<le> n \<and> n \<le> line_number b) [1 ..< Suc (length d)]"
    using key by (intro filter_cong) auto
  also have "\<dots> = [line_number a ..< Suc (line_number b)]"
    using la(1) lb(2) by (rule filter_upt_range)
  finally show ?thesis by simp
qed

section \<open>Selection-context resolver: verified properties\<close>

lemma touched_line_content:
  assumes "l \<in> set (map (mkLine (doc st)) [a ..< Suc b])" "1 \<le> a" "b \<le> length (doc st)"
  shows "sliceDoc st (line_from l) (line_to l) = line_text l"
proof -
  from assms obtain n where "l = mkLine (doc st) n" "1 \<le> n" "n \<le> length (doc st)" by auto
  then show ?thesis by (simp add: sliceDoc_mkLine)
qed

lemma hasInlineFormatInSelection_iff:
  assumes "\<forall>l \<in> set lines. sliceDoc st (line_from l) (line_to l) = line_text l"
  shows "hasInlineFormatInSelection st lines P = (\<exists>l \<in> set lines. P (line_text l))"
  using assms by (auto simp: hasInlineFormatInSelection_def list_ex_iff Let_def)

lemma bullet_all_iff:
  assumes "\<forall>l \<in> set lines. sliceDoc st (line_from l) (line_to l) = line_text l"
  shows "list_all (\<lambda>line. isBulletList (sliceDoc st (line_from line) (line_to line))) lines =
         (\<forall>l \<in> set lines. isBulletList (line_text l))"
  using assms by (auto simp: list_all_iff)

lemma spec_touched_subset:
  "set (spec_touchedLines d from_pos to_pos) \<subseteq>
   set (filter (\<lambda>l. line_from l \<le> to_pos \<and> from_pos \<le> line_to l)
          (map (mkLine d) [1 ..< Suc (length d)]))"
  by (auto simp: spec_touchedLines_def split: if_splits)

text \<open>
  Claim C1, amended: for a document and a selection range inside it, the resolver
  succeeds, and the lines it resolves over are the lines numbered from the line around
  \<open>from\<close> to the line around \<open>to\<close> (at least one). These are exactly the lines that meet
  the closed range from \<open>from\<close> to \<open>to\<close>, so a line that starts at \<open>to\<close> is included;
  they include every line that overlaps the half-open range. Over these lines each
  inline flag (bold, italic, underline, strikethrough) is true iff at least one line's
  full text satisfies that style's detector, and the bullet flag is true iff every line
  satisfies the bullet detector.
\<close>

theorem resolver_any_all_amended:
  assumes "doc st \<noteq> []" and "from_pos \<le> to_pos" and "to_pos \<le> length (docString (doc st))"
  shows "\<exists>a b lines fs.
     lineAt (doc st) from_pos = Inr a \<and> lineAt (doc st) to_pos = Inr b \<and>
     lines = map (mkLine (doc st)) [line_number a ..< Suc (line_number b)] \<and> lines \<noteq> [] \<and>
     lines = filter (\<lambda>l. line_from l \<le> to_pos \<and> from_pos \<le> line_to l)
               (map (mkLine (doc st)) [1 ..< Suc (length (doc st))]) \<and>
     set (spec_touchedLines (doc st) from_pos to_pos) \<subseteq> set lines \<and>
     getSelectedLines st from_pos to_pos = Inr lines \<and>
     detectAdvancedFormatState st from_pos to_pos = Inr fs \<and>
     bold fs = (\<exists>l \<in> set lines. isBold (line_text l)) \<and>
     italic fs = (\<exists>l \<in> set lines. isItalic (line_text l)) \<and>
     underline fs = (\<exists>l \<in> set lines. isUnderline (line_text l)) \<and>
     strikethrough fs = (\<exists>l \<in> set lines. isStrikethrough (line_text l)) \<and>
     bullet fs = (\<forall>l \<in> set lines. isBulletList (line_text l))"
proof -
  from getSelectedLines_ok[OF assms] obtain a b where ab:
    "lineAt (doc st) from_pos = Inr a" "lineAt (doc st) to_pos = Inr b"
    "1 \<le> line_number a" "line_number a \<le> line_number b" "line_number b \<le> length (doc st)"
    "getSelectedLines st from_pos to_pos =
       Inr (map (mkLine (doc st)) [line_number a ..< Suc (line_number b)])"
    by blast
  define lines where "lines = map (mkLine (doc st)) [line_number a ..< Suc (line_number b)]"
  from ab(4) have ne: "lines \<noteq> []" by (simp add: lines_def)
  have closed: "lines = filter (\<lambda>l. line_from l \<le> to_pos \<and> from_pos \<le> line_to l)
               (map (mkLine (doc st)) [1 ..< Suc (length (doc st))])"
    unfolding lines_def using ab(1,2) by (rule touched_by_positions)
  have sub: "set (spec_touchedLines (doc st) from_pos to_pos) \<subseteq> set lines"
    by (subst closed) (rule spec_touched_subset)
  have content: "\<forall>l \<in> set lines. sliceDoc st (line_from l) (line_to l) = line_text l"
    unfolding lines_def using touched_line_content[OF _ ab(3) ab(5)] by blast
  define fs where "fs =
     \<lparr>bold = hasInlineFormatInSelection st lines isBold,
      italic = hasInlineFormatInSelection st lines isItalic,
      underline = hasInlineFormatInSelection st lines isUnderline,
      strikethrough = hasInlineFormatInSelection st lines isStrikethrough,
      h1 = (length lines = 1 \<and> allLinesHaveHeaderLevel st lines isH1),
      h2 = (length lines = 1 \<and> allLinesHaveHeaderLevel st lines isH2),
      h3 = (length lines = 1 \<and> allLinesHaveHeaderLevel st lines isH3),
      bullet = (length lines > 0 \<and>
        list_all (\<lambda>line. let lineContent = sliceDoc st (line_from line) (line_to line)
                         in isBulletList lineContent) lines)\<rparr>"
  have gs: "getSelectedLines st from_pos to_pos = Inr lines" using ab(6) by (simp add: lines_def)
  then have det: "detectAdvancedFormatState st from_pos to_pos = Inr fs"
    using ne by (simp add: detectAdvancedFormatState_def fs_def Let_def)
  have flags:
    "bold fs = (\<exists>l \<in> set lines. isBold (line_text l))"
    "italic fs = (\<exists>l \<in> set lines. isItalic (line_text l))"
    "underline fs = (\<exists>l \<in> set lines. isUnderline (line_text l))"
    "strikethrough fs = (\<exists>l \<in> set lines. isStrikethrough (line_text l))"
    by (simp_all add: fs_def hasInlineFormatInSelection_iff[OF content])
  have bl: "bullet fs = (\<forall>l \<in> set lines. isBulletList (line_text l))"
    using ne by (simp add: fs_def Let_def bullet_all_iff[OF content])
  have "lineAt (doc st) from_pos = Inr a \<and> lineAt (doc st) to_pos = Inr b \<and>
     lines = map (mkLine (doc st)) [line_number a ..< Suc (line_number b)] \<and> lines \<noteq> [] \<and>
     lines = filter (\<lambda>l. line_from l \<le> to_pos \<and> from_pos \<le> line_to l)
               (map (mkLine (doc st)) [1 ..< Suc (length (doc st))]) \<and>
     set (spec_touchedLines (doc st) from_pos to_pos) \<subseteq> set lines \<and>
     getSelectedLines st from_pos to_pos = Inr lines \<and>
     detectAdvancedFormatState st from_pos to_pos = Inr fs \<and>
     bold fs = (\<exists>l \<in> set lines. isBold (line_text l)) \<and>
     italic fs = (\<exists>l \<in> set lines. isItalic (line_text l)) \<and>
     underline fs = (\<exists>l \<in> set lines. isUnderline (line_text l)) \<and>
     strikethrough fs = (\<exists>l \<in> set lines. isStrikethrough (line_text l)) \<and>
     bullet fs = (\<forall>l \<in> set lines. isBulletList (line_text l))"
    using ab(1,2) lines_def ne closed sub gs det flags bl by (intro conjI)
  then show ?thesis by blast
qed

theorem resolver_any_all_amended_witness:
  "doc \<lparr>doc = [js ''<b>x</b>'', js ''- item'', js ''plain''],
        selection_from = 2, selection_to = 17\<rparr> \<noteq> [] \<and>
   (2::nat) \<le> 17 \<and>
   17 \<le> length (docString (doc \<lparr>doc = [js ''<b>x</b>'', js ''- item'', js ''plain''],
                                 selection_from = 2, selection_to = 17\<rparr>)) \<and>
   (\<exists>fs. detectAdvancedFormatState
           \<lparr>doc = [js ''<b>x</b>'', js ''- item'', js ''plain''],
            selection_from = 2, selection_to = 17\<rparr> 2 17 = Inr fs \<and>
         bold fs \<and> \<not> italic fs \<and> \<not> bullet fs)"
proof -
  let ?st = "\<lparr>doc = [js ''<b>x</b>'', js ''- item'', js ''plain''],
              selection_from = 2, selection_to = 17\<rparr>"
  have h: "doc ?st \<noteq> []" "(2::nat) \<le> 17" "17 \<le> length (docString (doc ?st))"
    by (simp_all add: js_def)
  from resolver_any_all_amended[OF h] obtain fs where
    fs: "detectAdvancedFormatState ?st 2 17 = Inr fs" by blast
  have "detectAdvancedFormatState ?st 2 17 =
    Inr \<lparr>bold = True, italic = False, underline = False, strikethrough = False,
         h1 = False, h2 = False, h3 = False, bullet = False\<rparr>"
    by code_simp
  with fs have "bold fs \<and> \<not> italic fs \<and> \<not> bullet fs" by auto
  with fs h show ?thesis by blast
qed

text \<open>
  The claim as stated fails with the touched lines of the specification. A selection
  that ends at the first offset of a line overlaps nothing of that line, yet the
  resolver counts it: with lines \<open>a\<close> and \<open><b>x</b>\<close> and the range 0 to 2 the only
  overlapped line is not bold and the bold flag is true; with lines \<open>- a\<close> and \<open>b\<close> and
  the range 0 to 4 the only overlapped line is a bullet item and the bullet flag is
  false.
\<close>

theorem resolver_spec_touched_counterexample:
  "spec_touchedLines [js ''a'', js ''<b>x</b>''] 0 2 =
     [\<lparr>line_from = 0, line_to = 1, line_number = 1, line_text = js ''a''\<rparr>] \<and>
   \<not> isBold (js ''a'') \<and>
   detectAdvancedFormatState
     \<lparr>doc = [js ''a'', js ''<b>x</b>''], selection_from = 0, selection_to = 2\<rparr> 0 2 =
     Inr \<lparr>bold = True, italic = False, underline = False, strikethrough = False,
          h1 = False, h2 = False, h3 = False, bullet = False\<rparr> \<and>
   spec_touchedLines [js ''- a'', js ''b''] 0 4 =
     [\<lparr>line_from = 0, line_to = 3, line_number = 1, line_text = js ''- a''\<rparr>] \<and>
   isBulletList (js ''- a'') \<and>
   detectAdvancedFormatState
     \<lparr>doc = [js ''- a'', js ''b''], selection_from = 0, selection_to = 4\<rparr> 0 4 =
     Inr \<lparr>bold = False, italic = False, underline = False, strikethrough = False,
          h1 = False, h2 = False, h3 = False, bullet = False\<rparr>"
  by code_simp

text \<open>
  Claim C2: when the selection touches more than one line, the resolved state has
  \<open>h1 = h2 = h3 = False\<close>, whatever the touched lines contain.
\<close>

theorem multi_line_no_heading:
  assumes "getSelectedLines st from_pos to_pos = Inr lines" and "1 < length lines"
  shows "\<exists>fs. detectAdvancedFormatState st from_pos to_pos = Inr fs \<and>
              \<not> h1 fs \<and> \<not> h2 fs \<and> \<not> h3 fs"
  using assms by (simp add: detectAdvancedFormatState_def Let_def)

theorem multi_line_no_heading_witness:
  "getSelectedLines \<lparr>doc = [js ''# one'', js ''# two''], selection_from = 0, selection_to = 11\<rparr>
     0 11 =
     Inr [\<lparr>line_from = 0, line_to = 5, line_number = 1, line_text = js ''# one''\<rparr>,
          \<lparr>line_from = 6, line_to = 11, line_number = 2, line_text = js ''# two''\<rparr>] \<and>
   isH1 (js ''# one'') \<and> isH1 (js ''# two'') \<and>
   (\<exists>fs. detectAdvancedFormatState
           \<lparr>doc = [js ''# one'', js ''# two''], selection_from = 0, selection_to = 11\<rparr> 0 11 =
           Inr fs \<and> \<not> h1 fs \<and> \<not> h2 fs \<and> \<not> h3 fs)"
proof -
  let ?st = "\<lparr>doc = [js ''# one'', js ''# two''], selection_from = 0, selection_to = 11\<rparr>"
  let ?lines = "[\<lparr>line_from = 0, line_to = 5, line_number = 1, line_text = js ''# one''\<rparr>,
          \<lparr>line_from = 6, line_to = 11, line_number = 2, line_text = js ''# two''\<rparr>]"
  have g: "getSelectedLines ?st 0 11 = Inr ?lines" by code_simp
  have l: "1 < length ?lines" by simp
  have i: "isH1 (js ''# one'')" "isH1 (js ''# two'')" by code_simp+
  from multi_line_no_heading[OF g l] g i show ?thesis by blast
qed

section \<open>Toggle orchestrator: verified properties\<close>

lemma caret_single_line:
  assumes "getSelectedLines st pos pos = Inr lines"
  shows "length lines = 1"
proof -
  from assms obtain a where a: "lineAt (doc st) pos = Inr a"
    by (auto simp: getSelectedLines_def split: sum.splits)
  with assms have "pushLines (doc st) [line_number a ..< Suc (line_number a)] = Inr lines"
    by (simp add: getSelectedLines_def)
  from pushLines_length[OF this] show ?thesis by simp
qed

lemma refuse_inline_without_selection:
  assumes "selection_from st = selection_to st"
    and "doc st \<noteq> []" and "selection_from st \<le> length (docString (doc st))"
    and "formatType = Bold \<or> formatType = Italic \<or> formatType = Underline \<or>
         formatType = Strikethrough"
  shows "applyFormatting (Some st) formatType =
         Inr [ConsoleWarn ''Inline formatting not allowed without selection'']"
proof -
  from assms(2,3) obtain l where "lineAt (doc st) (selection_from st) = Inr l"
    using lineAt_total by blast
  with assms(1,4) show ?thesis by (auto simp: applyFormatting_def Let_def)
qed

lemma refuse_heading_on_multi_line:
  assumes "getSelectedLines st (selection_from st) (selection_to st) = Inr lines"
    and "1 < length lines"
    and "formatType = H1 \<or> formatType = H2 \<or> formatType = H3"
  shows "applyFormatting (Some st) formatType =
         Inr [ConsoleWarn ''Header formatting not allowed on multi-line selections'']"
proof -
  have "selection_from st \<noteq> selection_to st"
  proof
    assume "selection_from st = selection_to st"
    with assms(1) have "length lines = 1" using caret_single_line by metis
    with assms(2) show False by simp
  qed
  with assms show ?thesis by (auto simp: applyFormatting_def Let_def)
qed

text \<open>
  Claim C3: the orchestrator refuses an inline format (bold, italic, underline,
  strikethrough) requested with a caret-only selection, and a heading (h1, h2, h3)
  requested on a selection that touches more than one line. In both cases it returns
  normally (no error is thrown) after a single console warning: no transaction is
  dispatched, so the document stays unchanged.
\<close>

theorem refusal_reported_not_thrown:
  assumes "(selection_from st = selection_to st \<and> doc st \<noteq> [] \<and>
            selection_from st \<le> length (docString (doc st)) \<and>
            (formatType = Bold \<or> formatType = Italic \<or> formatType = Underline \<or>
             formatType = Strikethrough)) \<or>
           ((\<exists>lines. getSelectedLines st (selection_from st) (selection_to st) = Inr lines \<and>
                     1 < length lines) \<and>
            (formatType = H1 \<or> formatType = H2 \<or> formatType = H3))"
  shows "\<exists>message. applyFormatting (Some st) formatType = Inr [ConsoleWarn message]"
  using assms refuse_inline_without_selection[of st formatType]
    refuse_heading_on_multi_line[of st _ formatType]
  by blast

theorem refusal_reported_not_thrown_witness:
  "applyFormatting
     (Some \<lparr>doc = [js ''Hello world'', js ''second''], selection_from = 3, selection_to = 3\<rparr>)
     Bold = Inr [ConsoleWarn ''Inline formatting not allowed without selection''] \<and>
   applyFormatting
     (Some \<lparr>doc = [js ''Hello world'', js ''second''], selection_from = 3, selection_to = 14\<rparr>)
     H2 = Inr [ConsoleWarn ''Header formatting not allowed on multi-line selections'']"
proof -
  let ?c = "\<lparr>doc = [js ''Hello world'', js ''second''], selection_from = 3, selection_to = 3\<rparr>"
  let ?m = "\<lparr>doc = [js ''Hello world'', js ''second''], selection_from = 3, selection_to = 14\<rparr>"
  have c: "selection_from ?c = selection_to ?c \<and> doc ?c \<noteq> [] \<and>
           selection_from ?c \<le> length (docString (doc ?c))"
    by (simp add: js_def)
  have "getSelectedLines ?m (selection_from ?m) (selection_to ?m) =
        Inr [\<lparr>line_from = 0, line_to = 11, line_number = 1, line_text = js ''Hello world''\<rparr>,
             \<lparr>line_from = 12, line_to = 18, line_number = 2, line_text = js ''second''\<rparr>]"
    by code_simp
  then have m: "\<exists>lines. getSelectedLines ?m (selection_from ?m) (selection_to ?m) = Inr lines \<and>
                       1 < length lines"
    by simp
  from c have "\<exists>message. applyFormatting (Some ?c) Bold = Inr [ConsoleWarn message]"
    by (intro refusal_reported_not_thrown) blast
  moreover from m have "\<exists>message. applyFormatting (Some ?m) H2 = Inr [ConsoleWarn message]"
    by (intro refusal_reported_not_thrown) blast
  moreover have "applyFormatting (Some ?c) Bold =
      Inr [ConsoleWarn ''Inline formatting not allowed without selection'']" by code_simp
  moreover have "applyFormatting (Some ?m) H2 =
      Inr [ConsoleWarn ''Header formatting not allowed on multi-line selections'']" by code_simp
  ultimately show ?thesis by blast
qed

end
